theory Spec2Isabelle
  imports Complex_Main "HOL-Library.Log_Nat"
begin

text \<open>
  A shallow embedding of the extraction pipeline of the SEC ownership scraper: the fetch
  layer with its retries, the filing locators, the content-type sniffer, the row and
  column normalizer with the canonicalization of holder names, and the two
  institution-pattern extractors. Regular expressions are patterns of a small matcher
  that tries alternatives in the order of Python's \<open>re\<close>; the network, the clock and
  the general \<open>float\<close> parser are parameters.
\<close>

section \<open>Text: characters, case mapping, whitespace\<close>

text \<open>
  A Python \<open>str\<close> is modelled as a \<open>string\<close>; a character is read as the code point
  of the same number (0 to 255). The character classes below are the ones Python uses
  on that range: \<open>str.isspace\<close> and the pattern class \<open>\s\<close> agree there, and so do
  \<open>\d\<close> and \<open>[0-9]\<close>.
\<close>

definition is_space :: "char \<Rightarrow> bool" where
  "is_space c = (let n = (of_char c :: nat) in
     (9 \<le> n \<and> n \<le> 13) \<or> (28 \<le> n \<and> n \<le> 32) \<or> n = 133 \<or> n = 160)"

definition is_digit :: "char \<Rightarrow> bool" where
  "is_digit c = (let n = (of_char c :: nat) in 48 \<le> n \<and> n \<le> 57)"

definition is_ascii_letter :: "char \<Rightarrow> bool" where
  "is_ascii_letter c = (let n = (of_char c :: nat) in
     (97 \<le> n \<and> n \<le> 122) \<or> (65 \<le> n \<and> n \<le> 90))"

definition is_word :: "char \<Rightarrow> bool" where
  \<comment> \<open>the pattern class \<open>\w\<close>: alphanumeric or underscore\<close>
  "is_word c = (let n = (of_char c :: nat) in
     is_digit c \<or> is_ascii_letter c \<or> n = 95 \<or> n = 170 \<or> n = 178 \<or> n = 179 \<or> n = 181
     \<or> n = 185 \<or> n = 186 \<or> (188 \<le> n \<and> n \<le> 190) \<or> (192 \<le> n \<and> n \<le> 214)
     \<or> (216 \<le> n \<and> n \<le> 246) \<or> 248 \<le> n)"

definition lower_char :: "char \<Rightarrow> char" where
  "lower_char c = (let n = (of_char c :: nat) in
     if (65 \<le> n \<and> n \<le> 90) \<or> (192 \<le> n \<and> n \<le> 222 \<and> n \<noteq> 215)
     then char_of (n + 32) else c)"

definition upper_char :: "char \<Rightarrow> char" where
  \<comment> \<open>the three characters whose upper case lies beyond code point 255 stay as they are\<close>
  "upper_char c = (let n = (of_char c :: nat) in
     if (97 \<le> n \<and> n \<le> 122) \<or> (224 \<le> n \<and> n \<le> 254 \<and> n \<noteq> 247)
     then char_of (n - 32) else c)"

definition lower :: "string \<Rightarrow> string" where
  "lower s = map lower_char s"

definition upper :: "string \<Rightarrow> string" where
  "upper s = map upper_char s"

definition strip :: "string \<Rightarrow> string" where
  "strip s = rev (dropWhile is_space (rev (dropWhile is_space s)))"

fun contains :: "string \<Rightarrow> string \<Rightarrow> bool" where
  \<comment> \<open>\<open>contains sub s\<close> is Python's \<open>sub in s\<close>\<close>
  "contains sub [] = (sub = [])"
| "contains sub (c # cs) = (take (length sub) (c # cs) = sub \<or> contains sub cs)"

definition contains_ci :: "string \<Rightarrow> string \<Rightarrow> bool" where
  "contains_ci sub s = contains (lower sub) (lower s)"

fun collapse_from :: "bool \<Rightarrow> string \<Rightarrow> string" where
  \<comment> \<open>the flag says that the character before was whitespace, already replaced\<close>
  "collapse_from in_run [] = []"
| "collapse_from in_run (c # cs) =
     (if is_space c
      then (if in_run then collapse_from True cs else CHR '' '' # collapse_from True cs)
      else c # collapse_from False cs)"

definition collapse_ws :: "string \<Rightarrow> string" where
  \<comment> \<open>\<open>re.sub(r"\s+", " ", s)\<close>: every maximal run of whitespace becomes one space\<close>
  "collapse_ws s = collapse_from False s"

definition normalize_ws :: "string \<Rightarrow> string" where
  \<comment> \<open>\<open>re.sub(r"\s+", " ", s).strip()\<close>\<close>
  "normalize_ws s = strip (collapse_ws s)"

definition digits_only :: "string \<Rightarrow> string" where
  \<comment> \<open>\<open>re.sub(r"[^\d]", "", s)\<close>\<close>
  "digits_only s = filter is_digit s"

definition digit_val :: "char \<Rightarrow> int" where
  "digit_val c = of_char c - 48"

definition int_of_digits :: "string \<Rightarrow> int" where
  \<comment> \<open>\<open>int(s)\<close> for a string of digits\<close>
  "int_of_digits s = foldl (\<lambda>acc c. 10 * acc + digit_val c) 0 s"

section \<open>Regular expressions with Python's backtracking order\<close>

datatype atom = Ch char | Range char char | Dgt | Spc | AnyChar

fun atom_ok :: "bool \<Rightarrow> atom \<Rightarrow> char \<Rightarrow> bool" where
  "atom_ok ic (Ch c) x = (if ic then lower_char x = lower_char c else x = c)"
| "atom_ok ic (Range a b) x =
     (let inr = (\<lambda>y. (of_char a :: nat) \<le> of_char y \<and> (of_char y :: nat) \<le> of_char b)
      in inr x \<or> (ic \<and> (inr (lower_char x) \<or> inr (upper_char x))))"
| "atom_ok ic Dgt x = is_digit x"
| "atom_ok ic Spc x = is_space x"
| "atom_ok ic AnyChar x = (x \<noteq> CHR 0x0A)"

datatype regex =
    Eps
  | Cls "atom list"
  | Seq regex regex
  | Alt regex regex
  | Rep regex nat "nat option" bool
  | Bnd

text \<open>
  \<open>Rep r lo hi greedy\<close> is \<open>r{lo,hi}\<close> (\<open>hi = None\<close>: unbounded), greedy or lazy;
  \<open>Bnd\<close> is \<open>\b\<close>. The matcher returns the end positions of all matches of a pattern
  that start at position \<open>i\<close>, in the order in which a backtracking matcher tries them:
  the left alternative first, one more repetition first when greedy, one fewer first
  when lazy. The first element is the match that \<open>re\<close> reports.
\<close>

definition bound_left :: "nat option \<Rightarrow> bool" where
  "bound_left hi = (hi \<noteq> Some 0)"

definition bound_dec :: "nat option \<Rightarrow> nat option" where
  "bound_dec hi = (case hi of None \<Rightarrow> None | Some k \<Rightarrow> Some (k - 1))"

primrec rep_ends :: "(nat \<Rightarrow> nat list) \<Rightarrow> bool \<Rightarrow> nat \<Rightarrow> nat \<Rightarrow> nat option \<Rightarrow> nat \<Rightarrow> nat list" where
  "rep_ends f greedy 0 lo hi i = (if lo = 0 then [i] else [])"
| "rep_ends f greedy (Suc fuel) lo hi i =
     (let more = (if bound_left hi
                  then concat (map (\<lambda>j. if lo = 0 \<and> j \<le> i then []
                                         else rep_ends f greedy fuel (lo - 1) (bound_dec hi) j) (f i))
                  else []);
          stop = (if lo = 0 then [i] else [])
      in if greedy then more @ stop else stop @ more)"

definition is_boundary :: "string \<Rightarrow> nat \<Rightarrow> bool" where
  "is_boundary s i =
     (let word_left = (0 < i \<and> i \<le> length s \<and> is_word (s ! (i - 1)));
          word_right = (i < length s \<and> is_word (s ! i))
      in word_left \<noteq> word_right)"

primrec re_ends :: "regex \<Rightarrow> bool \<Rightarrow> string \<Rightarrow> nat \<Rightarrow> nat list" where
  "re_ends Eps ic s i = [i]"
| "re_ends (Cls as) ic s i =
     (if i < length s \<and> list_ex (\<lambda>a. atom_ok ic a (s ! i)) as then [Suc i] else [])"
| "re_ends (Seq r1 r2) ic s i = concat (map (re_ends r2 ic s) (re_ends r1 ic s i))"
| "re_ends (Alt r1 r2) ic s i = re_ends r1 ic s i @ re_ends r2 ic s i"
| "re_ends (Rep r lo hi greedy) ic s i =
     rep_ends (re_ends r ic s) greedy (lo + length s) lo hi i"
| "re_ends Bnd ic s i = (if is_boundary s i then [i] else [])"

fun first_from :: "(nat \<Rightarrow> 'a option) \<Rightarrow> nat \<Rightarrow> nat \<Rightarrow> 'a option" where
  \<comment> \<open>the first of the \<open>n\<close> positions from \<open>i\<close> on where \<open>f\<close> answers\<close>
  "first_from f i 0 = None"
| "first_from f i (Suc n) = (case f i of Some v \<Rightarrow> Some v | None \<Rightarrow> first_from f (Suc i) n)"

definition re_search :: "regex \<Rightarrow> bool \<Rightarrow> string \<Rightarrow> (nat \<times> nat) option" where
  \<comment> \<open>\<open>re.search\<close>: the leftmost start with a match, and the end of its first match\<close>
  "re_search r ic s =
     first_from (\<lambda>i. case re_ends r ic s i of [] \<Rightarrow> None | e # _ \<Rightarrow> Some (i, e)) 0 (Suc (length s))"

definition re_search_group :: "regex \<Rightarrow> regex \<Rightarrow> bool \<Rightarrow> string \<Rightarrow> (nat \<times> nat) option" where
  \<comment> \<open>\<open>re.search\<close> of the pattern \<open>(g)rest\<close>: the span of group 1\<close>
  "re_search_group g rest ic s =
     first_from (\<lambda>i. case filter (\<lambda>e. re_ends rest ic s e \<noteq> []) (re_ends g ic s i) of
                        [] \<Rightarrow> None | e # _ \<Rightarrow> Some (i, e)) 0 (Suc (length s))"

definition slice :: "string \<Rightarrow> nat \<Rightarrow> nat \<Rightarrow> string" where
  \<comment> \<open>\<open>s[a:b]\<close> for \<open>0 \<le> a\<close>, \<open>0 \<le> b\<close>\<close>
  "slice s a b = take (b - a) (drop a s)"

definition Lit :: "char \<Rightarrow> regex" where
  "Lit c = Cls [Ch c]"

definition Lits :: "string \<Rightarrow> regex" where
  "Lits w = foldr (\<lambda>c r. Seq (Lit c) r) w Eps"

definition seqs :: "regex list \<Rightarrow> regex" where
  "seqs rs = foldr Seq rs Eps"

definition Star :: "regex \<Rightarrow> regex" where
  "Star r = Rep r 0 None True"

definition Plus :: "regex \<Rightarrow> regex" where
  "Plus r = Rep r 1 None True"

definition Opt :: "regex \<Rightarrow> regex" where
  "Opt r = Rep r 0 (Some 1) True"

section \<open>The filing locator of \<^verbatim>\<open>scrape_proxy_holders.py\<close>\<close>

datatype py_error = IndexError | RuntimeError | ValueError | RequestException nat

record submissions =
  form :: "string list"
  filingDate :: "string list"
  accessionNumber :: "string list"
  primaryDocument :: "string list"

definition is_def14a :: "string \<Rightarrow> bool" where
  \<comment> \<open>\<open>str(form).strip().upper() in ["DEF 14A", "DEF 14"]\<close>\<close>
  "is_def14a f = (upper (strip f) \<in> set [''DEF 14A'', ''DEF 14''])"

fun str_less :: "string \<Rightarrow> string \<Rightarrow> bool" where
  \<comment> \<open>Python's \<open><\<close> on strings: by code point, a proper prefix first\<close>
  "str_less [] [] = False"
| "str_less [] (y # ys) = True"
| "str_less (x # xs) [] = False"
| "str_less (x # xs) (y # ys) =
     ((of_char x :: nat) < of_char y \<or> (x = y \<and> str_less xs ys))"

definition remove_dashes :: "string \<Rightarrow> string" where
  \<comment> \<open>\<open>s.replace("-", "")\<close>\<close>
  "remove_dashes s = filter (\<lambda>c. c \<noteq> CHR ''-'') s"

text \<open>
  The loop of \<open>find_latest_def14a\<close> over \<open>enumerate(forms)\<close>: the state is
  \<open>(latest_idx, latest_date)\<close>, \<open>None\<close> before the first match; reading
  \<open>filing_dates[i]\<close> beyond the end of that list raises.
\<close>

fun scan_forms :: "string list \<Rightarrow> (nat \<times> string) list \<Rightarrow> (nat \<times> string) option
    \<Rightarrow> py_error + (nat \<times> string) option" where
  "scan_forms dates [] latest = Inr latest"
| "scan_forms dates ((i, f) # rest) latest =
     (if is_def14a f
      then (if i < length dates
            then (let d = dates ! i in
                  case latest of
                    None \<Rightarrow> scan_forms dates rest (Some (i, d))
                  | Some (li, ld) \<Rightarrow>
                      if str_less ld d then scan_forms dates rest (Some (i, d))
                      else scan_forms dates rest latest)
            else Inl IndexError)
      else scan_forms dates rest latest)"

definition find_latest_def14a :: "submissions \<Rightarrow> py_error + (string \<times> string \<times> string) option" where
  "find_latest_def14a subs =
     (case scan_forms (filingDate subs) (enumerate 0 (form subs)) None of
        Inl e \<Rightarrow> Inl e
      | Inr None \<Rightarrow> Inr None
      | Inr (Some (latest_idx, latest_date)) \<Rightarrow>
          if latest_idx < length (accessionNumber subs)
          then (let acc_no_dash = remove_dashes (accessionNumber subs ! latest_idx);
                    primary_doc = (if latest_idx < length (primaryDocument subs)
                                   then primaryDocument subs ! latest_idx else [])
                in Inr (Some (filingDate subs ! latest_idx, acc_no_dash, primary_doc)))
          else Inl IndexError)"

section \<open>Names, percentages and content type in \<^verbatim>\<open>scrape_proxy_holders.py\<close>\<close>

datatype 'a pyarg = IsStr string | NotStr 'a

definition any_char :: regex where
  "any_char = Cls [AnyChar]"

definition aliases :: "(regex \<times> string) list" where
  "aliases =
    [(seqs [Bnd, Lits ''the vanguard group'', Star any_char], ''Vanguard Group''),
     (seqs [Bnd, Lits ''blackrock'', Opt (Lit CHR '',''), Lits '' inc'', Opt (Lit CHR ''.'')],
        ''BlackRock''),
     (seqs [Bnd, Lits ''state street'', Star any_char], ''State Street''),
     (seqs [Bnd, Lits ''fidelity'',
            Opt (seqs [Lits '' management '', Rep any_char 0 None False])], ''Fidelity''),
     (seqs [Bnd, Lit CHR ''t'', Opt (Lit CHR ''.''), Lits '' rowe price'', Star any_char],
        ''T. Rowe Price''),
     (seqs [Bnd, Lits ''berkshire hathaway'', Star any_char], ''Berkshire Hathaway'')]"

fun first_alias :: "(regex \<times> string) list \<Rightarrow> string \<Rightarrow> string option" where
  \<comment> \<open>the loop over \<open>aliases.items()\<close>: the label of the first pattern found in \<open>lower\<close>\<close>
  "first_alias [] low = None"
| "first_alias ((pat, repl) # rest) low =
     (if re_search pat False low \<noteq> None then Some repl else first_alias rest low)"

definition clean_name_str :: "string \<Rightarrow> string" where
  "clean_name_str name =
     (let n = normalize_ws name in
      case first_alias aliases (lower n) of Some repl \<Rightarrow> repl | None \<Rightarrow> n)"

fun clean_holder_name :: "'a pyarg \<Rightarrow> 'a pyarg" where
  "clean_holder_name (NotStr v) = NotStr v"
| "clean_holder_name (IsStr name) = IsStr (clean_name_str name)"

datatype pyfloat = Fin rat | PosInf | NegInf | NaN

definition decimal_value :: "string \<Rightarrow> rat" where
  \<comment> \<open>the value of \<open>digits\<close>, \<open>digits.\<close> or \<open>digits.digits\<close>\<close>
  "decimal_value s =
     (let ip = takeWhile (\<lambda>c. c \<noteq> CHR ''.'') s;
          fp = drop 1 (dropWhile (\<lambda>c. c \<noteq> CHR ''.'') s)
      in of_int (int_of_digits ip) + of_int (int_of_digits fp) / 10 ^ length fp)"

text \<open>
  Python's \<open>float\<close> of a decimal numeral, and a float literal of the source, is the
  binary64 number nearest to the value of the numeral, the one with the even significand
  on a tie: a finite float is \<open>m * 2 ^ (e - 52)\<close> with \<open>e\<close> from -1022 to 1023 and
  \<open>m\<close> below \<open>2 ^ 53\<close>; what rounds to \<open>2 ^ 1024\<close> or more is infinite. The two zeros
  are one value here.
\<close>

definition pow2 :: "int \<Rightarrow> rat" where
  "pow2 e = (if 0 \<le> e then of_int (2 ^ nat e) else 1 / of_int (2 ^ nat (- e)))"

definition round_half_even :: "rat \<Rightarrow> int" where
  "round_half_even x =
     (let f = \<lfloor>x\<rfloor>; d = x - of_int f
      in if d < 1 / 2 then f else if 1 / 2 < d then f + 1
         else if even f then f else f + 1)"

definition binary_exponent :: "rat \<Rightarrow> int" where
  \<comment> \<open>for \<open>q > 0\<close>, the \<open>e\<close> with \<open>2 ^ e \<le> q < 2 ^ (e + 1)\<close>\<close>
  "binary_exponent q =
     (let (a, b) = quotient_of q; e0 = bitlen a - bitlen b
      in if pow2 e0 \<le> q then e0 else e0 - 1)"

definition binary64_pos :: "rat \<Rightarrow> pyfloat" where
  \<comment> \<open>for \<open>q > 0\<close>\<close>
  "binary64_pos q =
     (let e = max (binary_exponent q) (- 1022)
      in if 1023 < e then PosInf
         else (let ulp = pow2 (e - 52); m = round_half_even (q / ulp)
               in if e = 1023 \<and> m = 2 ^ 53 then PosInf else Fin (of_int m * ulp)))"

fun negate :: "pyfloat \<Rightarrow> pyfloat" where
  "negate (Fin x) = Fin (- x)"
| "negate PosInf = NegInf"
| "negate NegInf = PosInf"
| "negate NaN = NaN"

definition binary64 :: "rat \<Rightarrow> pyfloat" where
  "binary64 q =
     (if q = 0 then Fin 0 else if 0 < q then binary64_pos q else negate (binary64_pos (- q)))"

definition float_of_decimal :: "string \<Rightarrow> pyfloat" where
  \<comment> \<open>\<open>float(s)\<close> for \<open>s\<close> of the form \<open>digits\<close>, \<open>digits.\<close> or \<open>digits.digits\<close>\<close>
  "float_of_decimal s = binary64 (decimal_value s)"

type_synonym cell = "string option"

text \<open>
  A cell of a data frame is \<open>None\<close> where \<open>pd.isna\<close> holds, and \<open>Some s\<close> with
  \<open>s = str(value)\<close> otherwise. Python's \<open>float(s)\<close> on an arbitrary string is the
  parameter \<open>pf\<close>: \<open>None\<close> where it raises.
\<close>

definition digit09 :: regex where
  "digit09 = Cls [Range CHR ''0'' CHR ''9'']"

definition spaces_percent :: regex where
  \<comment> \<open>\<open>\s*%\<close>\<close>
  "spaces_percent = Seq (Star (Cls [Spc])) (Lit CHR ''%'')"

definition extract_percent :: "(string \<Rightarrow> pyfloat option) \<Rightarrow> cell \<Rightarrow> pyfloat option" where
  "extract_percent pf v =
     (case v of None \<Rightarrow> None
      | Some s \<Rightarrow>
         (case re_search_group (Seq (Plus digit09) (Opt (Seq (Lit CHR ''.'') (Plus digit09))))
                 spaces_percent False s of
            Some (a, b) \<Rightarrow> Some (float_of_decimal (slice s a b))
          | None \<Rightarrow> pf s))"

datatype content_type = Html | Xml | Text

definition html_pattern :: regex where
  \<comment> \<open>\<open><!DOCTYPE html|</html>\<close>\<close>
  "html_pattern = Alt (Lits ''<!DOCTYPE html'') (Lits ''</html>'')"

definition xml_pattern :: regex where
  \<comment> \<open>\<open><\?xml|</[a-zA-Z]+>\<close>\<close>
  "xml_pattern = Alt (Lits ''<?xml'')
     (seqs [Lits ''</'', Plus (Cls [Range CHR ''a'' CHR ''z'', Range CHR ''A'' CHR ''Z'']),
            Lit CHR ''>''])"

definition detect_content_type :: "string \<Rightarrow> content_type" where
  "detect_content_type content =
     (if re_search html_pattern True content \<noteq> None then Html
      else if re_search xml_pattern False content \<noteq> None then Xml
      else Text)"

section \<open>The row and column normalizer of \<^verbatim>\<open>scrape_proxy_holders.py\<close>\<close>

record table =
  columns :: "string list"
  rows :: "cell list list"

text \<open>
  A data frame: \<open>columns\<close> holds \<open>str(c)\<close> of every column label, a row holds one cell
  per column; a cell that a row lacks is missing, as for a frame built from ragged rows.
\<close>

definition cell_at :: "cell list \<Rightarrow> nat \<Rightarrow> cell" where
  "cell_at row j = (if j < length row then row ! j else None)"

definition falsy :: "nat option \<Rightarrow> bool" where
  \<comment> \<open>\<open>not col_mapping.get(key)\<close>: the key is absent, or its value is 0\<close>
  "falsy v = (v = None \<or> v = Some 0)"

definition any_in :: "string list \<Rightarrow> string \<Rightarrow> bool" where
  \<comment> \<open>\<open>any(k in col_text for k in keys)\<close>\<close>
  "any_in keys col_text = list_ex (\<lambda>k. contains k col_text) keys"

definition detect_step :: "(string \<rightharpoonup> nat) \<Rightarrow> nat \<times> string \<Rightarrow> (string \<rightharpoonup> nat)" where
  "detect_step col_mapping ic =
     (let i = fst ic; col_text = lower (snd ic);
          m1 = (if falsy (col_mapping ''name'')
                   \<and> any_in [''name'', ''beneficial'', ''holder'', ''shareholder''] col_text
                then col_mapping(''name'' \<mapsto> i) else col_mapping);
          m2 = (if falsy (m1 ''percent'') \<and> any_in [''%'', ''percent'', ''percentage''] col_text
                then m1(''percent'' \<mapsto> i) else m1);
          m3 = (if falsy (m2 ''shares'')
                   \<and> any_in [''share'', ''security'', ''amount'', ''number''] col_text
                then m2(''shares'' \<mapsto> i) else m2)
      in m3)"

definition detect_ownership_columns :: "string list \<Rightarrow> (string \<rightharpoonup> nat)" where
  "detect_ownership_columns cols = foldl detect_step Map.empty (enumerate 0 cols)"

record holder_row =
  holder_raw :: string
  holder :: string
  percent_class :: "pyfloat option"
  df_shares :: "int option"

definition to_int :: "cell \<Rightarrow> int option" where
  "to_int x =
     (case x of None \<Rightarrow> None
      | Some v \<Rightarrow> (let s = digits_only v in
                   if s \<noteq> [] \<and> list_all is_digit s then Some (int_of_digits s) else None))"

definition astype_str :: "cell \<Rightarrow> string" where
  \<comment> \<open>\<open>astype(str)\<close>: a missing value reads \<open>nan\<close>\<close>
  "astype_str c = (case c of None \<Rightarrow> ''nan'' | Some s \<Rightarrow> s)"

definition make_row :: "(string \<Rightarrow> pyfloat option) \<Rightarrow> (string \<rightharpoonup> nat) \<Rightarrow> nat \<Rightarrow> cell list \<Rightarrow> holder_row" where
  "make_row pf col_map name_idx row =
     (let raw = astype_str (cell_at row name_idx) in
      \<lparr>holder_raw = raw,
       holder = clean_name_str raw,
       percent_class = (case col_map ''percent'' of
                          Some j \<Rightarrow> extract_percent pf (cell_at row j) | None \<Rightarrow> None),
       df_shares = (case col_map ''shares'' of
                      Some j \<Rightarrow> to_int (cell_at row j) | None \<Rightarrow> None)\<rparr>)"

definition keep_row :: "holder_row \<Rightarrow> bool" where
  \<comment> \<open>the two filters under \<open># Clean rows\<close>\<close>
  "keep_row r = (\<not> contains_ci ''total'' (holder r) \<and> 1 < length (holder r))"

definition process_ownership_table :: "(string \<Rightarrow> pyfloat option) \<Rightarrow> table \<Rightarrow> py_error + holder_row list" where
  "process_ownership_table pf df =
     (let cols = map normalize_ws (columns df);
          col_map = detect_ownership_columns cols;
          name_idx = (case col_map ''name'' of Some j \<Rightarrow> j | None \<Rightarrow> 0)
      in if name_idx < length cols
         then Inr (filter keep_row (map (make_row pf col_map name_idx) (rows df)))
         else Inl IndexError)"

section \<open>The pure steps of the driver of \<^verbatim>\<open>scrape_proxy_holders.py\<close>\<close>

fun str_of_nat :: "nat \<Rightarrow> string" where
  \<comment> \<open>\<open>str(n)\<close> for \<open>n \<ge> 0\<close>\<close>
  "str_of_nat n =
     (if n < 10 then [''0123456789'' ! n]
      else str_of_nat (n div 10) @ [''0123456789'' ! (n mod 10)])"

definition filing_url :: "nat \<Rightarrow> string \<Rightarrow> string \<Rightarrow> string" where
  "filing_url cik acc_nodash primary_doc =
     ''https://www.sec.gov/Archives/edgar/data/'' @ str_of_nat cik @ ''/'' @ acc_nodash
       @ ''/'' @ primary_doc"

text \<open>
  The filer id is the zero-padded numeral of a number, so \<open>int(cik)\<close> is that number.
  \<open>locate_filing\<close> is the part of the loop body of \<open>fetch_ownership_for_sp500\<close>
  between the download of the submissions and the download of the document: \<open>None\<close>
  is a skip (\<open>continue\<close>), \<open>Some (filing_date, url)\<close> a located filing.
\<close>

definition locate_filing :: "nat \<Rightarrow> submissions \<Rightarrow> py_error + (string \<times> string) option" where
  "locate_filing cik subs =
     (case find_latest_def14a subs of
        Inl e \<Rightarrow> Inl e
      | Inr None \<Rightarrow> Inr None
      | Inr (Some (filing_date, acc_nodash, primary_doc)) \<Rightarrow>
          if primary_doc = [] then Inr None
          else Inr (Some (filing_date, filing_url cik acc_nodash primary_doc)))"

fun py_le :: "pyfloat \<Rightarrow> pyfloat \<Rightarrow> bool" where
  \<comment> \<open>\<open>x <= y\<close> on floats\<close>
  "py_le NaN y = False"
| "py_le x NaN = False"
| "py_le NegInf y = True"
| "py_le x PosInf = True"
| "py_le (Fin a) (Fin b) = (a \<le> b)"
| "py_le x y = False"

definition validate_percent :: "pyfloat option \<Rightarrow> pyfloat option" where
  \<comment> \<open>\<open>lambda x: x if (pd.notna(x) and 0 <= x <= 100) else None\<close>\<close>
  "validate_percent x =
     (case x of None \<Rightarrow> None
      | Some v \<Rightarrow> if v \<noteq> NaN \<and> py_le (Fin 0) v \<and> py_le v (Fin 100) then Some v else None)"

definition combine_frames :: "holder_row list list \<Rightarrow> holder_row list" where
  \<comment> \<open>the end of \<open>fetch_ownership_for_sp500\<close>: \<open>pd.concat\<close>, then the percentage check\<close>
  "combine_frames frames =
     map (\<lambda>r. r\<lparr>percent_class := validate_percent (percent_class r)\<rparr>) (concat frames)"

section \<open>The fetch layer of \<^verbatim>\<open>scrape_proxy_holders.py\<close>\<close>






section \<open>The pattern extractors of \<^verbatim>\<open>comprehensive_market_scraper.py\<close> and \<^verbatim>\<open>simple_scraper.py\<close>\<close>

fun first_def14a_url :: "nat \<Rightarrow> submissions \<Rightarrow> (nat \<times> string) list \<Rightarrow> string option" where
  \<comment> \<open>the loop over \<open>enumerate(forms)\<close>; an IndexError is caught by the bare \<open>except\<close>\<close>
  "first_def14a_url cik subs [] = None"
| "first_def14a_url cik subs ((i, f) # rest) =
     (if upper (strip f) = ''DEF 14A''
      then (if i < length (accessionNumber subs)
            then (let acc_no = remove_dashes (accessionNumber subs ! i);
                      primary_doc = (if i < length (primaryDocument subs)
                                     then primaryDocument subs ! i else [])
                  in if primary_doc \<noteq> [] then Some (filing_url cik acc_no primary_doc)
                     else first_def14a_url cik subs rest)
            else None)
      else first_def14a_url cik subs rest)"

definition get_latest_filing_url_fast :: "nat \<Rightarrow> submissions \<Rightarrow> string option" where
  \<comment> \<open>\<open>_get_latest_filing_url_fast\<close> once the submissions document has been read\<close>
  "get_latest_filing_url_fast cik subs = first_def14a_url cik subs (enumerate 0 (form subs))"

record holder_record =
  ticker :: string
  company_name :: string
  holder_name :: string
  shares :: "int option"
  percent_owned :: "pyfloat option"
  filing_date :: string

definition ws1 :: regex where
  \<comment> \<open>\<open>\s+\<close>\<close>
  "ws1 = Plus (Cls [Spc])"

definition ws0 :: regex where
  \<comment> \<open>\<open>\s*\<close>\<close>
  "ws0 = Star (Cls [Spc])"

definition spaced :: "string list \<Rightarrow> regex" where
  \<comment> \<open>the words, with \<open>\s+\<close> between them\<close>
  "spaced ws = (case ws of [] \<Rightarrow> Eps
                | w # rest \<Rightarrow> foldl (\<lambda>r v. Seq r (Seq ws1 (Lits v))) (Lits w) rest)"

definition digit :: regex where
  \<comment> \<open>\<open>\d\<close>\<close>
  "digit = Cls [Dgt]"

definition comma_number :: "nat \<Rightarrow> regex" where
  \<comment> \<open>\<open>\d{1,3}(?:,\d{3}){1,k}\<close>\<close>
  "comma_number k =
     Seq (Rep digit 1 (Some 3) True)
         (Rep (Seq (Lit CHR '','') (Rep digit 3 (Some 3) True)) 1 (Some k) True)"

definition remove_commas :: "string \<Rightarrow> string" where
  "remove_commas s = filter (\<lambda>c. c \<noteq> CHR '','') s"

definition truthy_int :: "int option \<Rightarrow> bool" where
  "truthy_int v = (case v of None \<Rightarrow> False | Some n \<Rightarrow> n \<noteq> 0)"

definition truthy_float :: "pyfloat option \<Rightarrow> bool" where
  "truthy_float v = (case v of None \<Rightarrow> False | Some x \<Rightarrow> x \<noteq> Fin 0)"

definition t_rowe_price :: regex where
  \<comment> \<open>\<open>t\.?\s*rowe\s+price\<close>\<close>
  "t_rowe_price = seqs [Lit CHR ''t'', Opt (Lit CHR ''.''), ws0, spaced [''rowe'', ''price'']]"

definition institutions :: "(string \<times> regex list) list" where
  "institutions =
    [(''Vanguard Group'', [spaced [''vanguard'', ''group''], spaced [''the'', ''vanguard'', ''group''],
        spaced [''vanguard'', ''fiduciary'']]),
     (''BlackRock'', [seqs [Lits ''blackrock'', Opt (Lit CHR '',''), ws1, Lits ''inc''],
        spaced [''blackrock'', ''fund''], spaced [''blackrock'', ''institutional'']]),
     (''State Street'', [spaced [''state'', ''street'', ''corp''],
        spaced [''state'', ''street'', ''corporation''], spaced [''state'', ''street'', ''global'']]),
     (''Fidelity'', [spaced [''fidelity'', ''management''], spaced [''fmr'', ''llc''],
        spaced [''fidelity'', ''investments'']]),
     (''T. Rowe Price'', [t_rowe_price,
        seqs [Lit CHR ''t'', Lit CHR ''.'', ws0, spaced [''rowe'', ''price'', ''associates'']]]),
     (''Berkshire Hathaway'', [spaced [''berkshire'', ''hathaway'']]),
     (''JPMorgan'', [spaced [''jpmorgan'', ''chase''], spaced [''jp'', ''morgan'']]),
     (''Capital Group'', [spaced [''capital'', ''group''], spaced [''capital'', ''research'']])]"

text \<open>
  One pass of the inner loop body of \<open>_extract_holders_simple\<close> for one pattern:
  \<open>None\<close> when the pattern is not found or no number was found near it. \<open>today\<close> is
  the date that \<open>datetime.now()\<close> gives.
\<close>

definition simple_record :: "string \<Rightarrow> string \<Rightarrow> string \<Rightarrow> string \<Rightarrow> string \<Rightarrow> regex
    \<Rightarrow> holder_record option" where
  "simple_record today content tick company institution_name pattern =
     (case re_search pattern False (lower content) of
        None \<Rightarrow> None
      | Some (m_start, m_end) \<Rightarrow>
         (let start = m_start - 1000;
              end_pos = min (length content) (m_end + 1000);
              ctx = slice content start end_pos;
              sh = (case re_search (comma_number 3) False ctx of
                      None \<Rightarrow> None
                    | Some (a, b) \<Rightarrow> Some (int_of_digits (remove_commas (slice ctx a b))));
              pc = (case re_search_group (seqs [Plus digit, Opt (Lit CHR ''.''), Star digit])
                           spaces_percent False ctx of
                      None \<Rightarrow> None
                    | Some (a, b) \<Rightarrow> Some (float_of_decimal (slice ctx a b)))
          in if truthy_int sh \<or> truthy_float pc
             then Some \<lparr>ticker = tick, company_name = company, holder_name = institution_name,
                        shares = sh, percent_owned = pc, filing_date = today\<rparr>
             else None))"

fun first_record :: "(regex \<Rightarrow> holder_record option) \<Rightarrow> regex list \<Rightarrow> holder_record option" where
  \<comment> \<open>the loop over the patterns of one institution, left by \<open>break\<close> at the first record\<close>
  "first_record f [] = None"
| "first_record f (pattern # rest) =
     (case f pattern of Some r \<Rightarrow> Some r | None \<Rightarrow> first_record f rest)"

definition extract_holders_simple :: "string \<Rightarrow> string \<Rightarrow> string \<Rightarrow> string \<Rightarrow> holder_record list" where
  "extract_holders_simple today content tick company =
     List.map_filter
       (\<lambda>(institution_name, patterns).
          first_record (simple_record today content tick company institution_name) patterns)
       institutions"

definition major_institutions :: "(string \<times> regex list) list" where
  "major_institutions =
    [(''Vanguard Group'', [spaced [''vanguard'', ''group''], spaced [''the'', ''vanguard'', ''group'']]),
     (''BlackRock'', [seqs [Lits ''blackrock'', Opt (Lit CHR '',''), ws1, Lits ''inc''],
        spaced [''blackrock'', ''fund'']]),
     (''State Street'', [spaced [''state'', ''street'', ''corp''],
        spaced [''state'', ''street'', ''corporation'']]),
     (''Fidelity'', [spaced [''fidelity'', ''management''], spaced [''fmr'', ''llc'']]),
     (''T. Rowe Price'', [t_rowe_price]),
     (''Berkshire Hathaway'', [spaced [''berkshire'', ''hathaway'']]),
     (''JPMorgan'', [spaced [''jpmorgan'', ''chase''], spaced [''jp'', ''morgan'']]),
     (''Capital Group'', [spaced [''capital'', ''group''], spaced [''capital'', ''research'']]),
     (''Wellington Management'', [spaced [''wellington'', ''management'']]),
     (''Invesco'', [spaced [''invesco'', ''ltd'']]),
     (''Northern Trust'', [spaced [''northern'', ''trust'']]),
     (''Bank of New York Mellon'', [spaced [''bank'', ''of'', ''new'', ''york'', ''mellon''],
        spaced [''bny'', ''mellon'']]),
     (''Goldman Sachs Asset Management'', [spaced [''goldman'', ''sachs'', ''asset''], Lits ''gsam'']),
     (''Morgan Stanley Investment Management'', [spaced [''morgan'', ''stanley'', ''investment'']]),
     (''Dimensional Fund Advisors'', [spaced [''dimensional'', ''fund'']])]"

definition fast_record :: "string \<Rightarrow> string \<Rightarrow> string \<Rightarrow> string \<Rightarrow> string \<Rightarrow> regex
    \<Rightarrow> holder_record option" where
  "fast_record today content tick company institution_name pattern =
     (case re_search pattern False (lower content) of
        None \<Rightarrow> None
      | Some (m_start, m_end) \<Rightarrow>
         (let context_start = m_start - 800;
              context_end = min (length content) (m_end + 800);
              ctx = slice content context_start context_end;
              sh = (case re_search (comma_number 4) False ctx of
                      None \<Rightarrow> None
                    | Some (a, b) \<Rightarrow>
                        (let n = int_of_digits (remove_commas (slice ctx a b))
                         in if 1000 \<le> n \<and> n \<le> 10000000000 then Some n else None));
              pc = (case re_search_group
                           (seqs [Rep digit 1 (Some 2) True, Opt (Lit CHR ''.''), Star digit])
                           spaces_percent False ctx of
                      None \<Rightarrow> None
                    | Some (a, b) \<Rightarrow>
                        (let x = float_of_decimal (slice ctx a b)
                         in if py_le (float_of_decimal ''0.1'') x
                               \<and> py_le x (float_of_decimal ''50.0'')
                            then Some x else None))
          in if truthy_int sh \<or> truthy_float pc
             then Some \<lparr>ticker = tick, company_name = company, holder_name = institution_name,
                        shares = sh, percent_owned = pc, filing_date = today\<rparr>
             else None))"

definition extract_institutional_holders_fast :: "string \<Rightarrow> string \<Rightarrow> string \<Rightarrow> string
    \<Rightarrow> holder_record list" where
  "extract_institutional_holders_fast today content tick company =
     List.map_filter
       (\<lambda>(institution_name, patterns).
          first_record (fast_record today content tick company institution_name) patterns)
       major_institutions"

section \<open>Notions used in the statements\<close>


text \<open>
  The filing that the locator is to select: entry \<open>i\<close> matches, no matching entry has
  a greater date, and every matching entry before it has a smaller date (the first wins
  a tie). \<open>scan_inv\<close> is the invariant of the loop of \<open>find_latest_def14a\<close>
  after \<open>n\<close> entries. The submissions documents after them are those of the scenarios.
\<close>

definition latest_among :: "string list \<Rightarrow> string list \<Rightarrow> nat \<Rightarrow> nat \<Rightarrow> bool" where
  "latest_among forms dates n i =
     (i < n \<and> is_def14a (forms ! i)
      \<and> list_all (\<lambda>j. is_def14a (forms ! j) \<longrightarrow> \<not> str_less (dates ! i) (dates ! j)) [0 ..< n]
      \<and> list_all (\<lambda>j. is_def14a (forms ! j) \<longrightarrow> str_less (dates ! j) (dates ! i)) [0 ..< i])"

definition is_latest_match :: "submissions \<Rightarrow> nat \<Rightarrow> bool" where
  "is_latest_match subs i = latest_among (form subs) (filingDate subs) (length (form subs)) i"

definition no_match :: "submissions \<Rightarrow> bool" where
  "no_match subs = list_all (\<lambda>f. \<not> is_def14a f) (form subs)"

definition doc_at :: "submissions \<Rightarrow> nat \<Rightarrow> string" where
  "doc_at subs i = (if i < length (primaryDocument subs) then primaryDocument subs ! i else [])"

abbreviation two_filings :: submissions where
  "two_filings \<equiv>
     \<lparr>form = [''DEF 14A'', ''DEF 14A''], filingDate = [''2023-01-01'', ''2024-06-15''],
      accessionNumber = [''0000320193-23-000001'', ''0000320193-24-000002''],
      primaryDocument = [''old.htm'', ''new.htm'']\<rparr>"

abbreviation two_filings_rev :: submissions where
  "two_filings_rev \<equiv>
     \<lparr>form = [''DEF 14A'', ''DEF 14A''], filingDate = [''2024-06-15'', ''2023-01-01''],
      accessionNumber = [''0000320193-24-000002'', ''0000320193-23-000001''],
      primaryDocument = [''new.htm'', ''old.htm'']\<rparr>"

definition scan_inv :: "string list \<Rightarrow> string list \<Rightarrow> nat \<Rightarrow> (nat \<times> string) option \<Rightarrow> bool" where
  "scan_inv forms dates n latest =
     (case latest of
        None \<Rightarrow> list_all (\<lambda>j. \<not> is_def14a (forms ! j)) [0 ..< n]
      | Some (li, ld) \<Rightarrow> ld = dates ! li \<and> latest_among forms dates n li)"

abbreviation filing_without_doc :: submissions where
  "filing_without_doc \<equiv>
     \<lparr>form = [''10-K'', ''DEF 14A''], filingDate = [''2024-02-01'', ''2024-06-15''],
      accessionNumber = [''0000320193-24-000001'', ''0000320193-24-000002''],
      primaryDocument = [''annual.htm'']\<rparr>"

text \<open>
  Records of the scenarios for the extractors.
\<close>

abbreviation vanguard_row :: holder_record where
  "vanguard_row \<equiv>
     \<lparr>ticker = ''AAPL'', company_name = ''Apple Inc.'', holder_name = ''Vanguard Group'',
      shares = Some 1234567, percent_owned = Some (Fin (85 / 10)), filing_date = ''2025-01-01''\<rparr>"

abbreviation blackrock_row :: holder_record where
  "blackrock_row \<equiv>
     \<lparr>ticker = ''AAPL'', company_name = ''Apple Inc.'', holder_name = ''BlackRock'',
      shares = Some 1234567, percent_owned = Some (Fin (85 / 10)), filing_date = ''2025-01-01''\<rparr>"

abbreviation unnamed_row :: holder_row where
  "unnamed_row \<equiv> \<lparr>holder_raw = ''Jane Doe'', holder = ''Jane Doe'', percent_class = None,
      df_shares = None\<rparr>"

text \<open>
  The shape of a normalized name: whitespace is single spaces between other characters,
  and there is none at either end.
\<close>

fun single_spaced :: "string \<Rightarrow> bool" where
  "single_spaced [] = True"
| "single_spaced (c # cs) =
     ((is_space c \<longrightarrow> c = CHR '' '' \<and> (cs = [] \<or> \<not> is_space (hd cs))) \<and> single_spaced cs)"

definition trimmed :: "string \<Rightarrow> bool" where
  "trimmed t = (t = [] \<or> (\<not> is_space (hd t) \<and> \<not> is_space (last t)))"

text \<open>
  The classification of content in the words of the specification: markup when the
  content contains \<open><!DOCTYPE html\<close> or \<open></html>\<close> in any case; else structured
  markup when it contains \<open><?xml\<close> or a closing tag, which is \<open></\<close>, one or more
  letters of a to z or A to Z, and \<open>>\<close>; else text. \<open>closing_tag_at s i n\<close>: such a
  tag with \<open>n\<close> letters starts at position \<open>i\<close>. \<open>lits_at\<close> and \<open>class_ok\<close> say
  what the matcher does on a literal and on a character class.
\<close>

definition closing_tag_at :: "string \<Rightarrow> nat \<Rightarrow> nat \<Rightarrow> bool" where
  "closing_tag_at s i n =
     (0 < n \<and> slice s i (i + 2) = ''</''
      \<and> list_all is_ascii_letter (slice s (i + 2) (i + 2 + n))
      \<and> slice s (i + 2 + n) (i + 3 + n) = ''>'')"

definition has_closing_tag :: "string \<Rightarrow> bool" where
  "has_closing_tag s =
     list_ex (\<lambda>i. list_ex (closing_tag_at s i) [1 ..< Suc (length s)]) [0 ..< length s]"

definition classify :: "string \<Rightarrow> content_type" where
  "classify content =
     (if contains_ci ''<!DOCTYPE html'' content \<or> contains_ci ''</html>'' content then Html
      else if contains ''<?xml'' content \<or> has_closing_tag content then Xml
      else Text)"

definition class_ok :: "bool \<Rightarrow> atom list \<Rightarrow> char \<Rightarrow> bool" where
  "class_ok ic cls x = list_ex (\<lambda>a. atom_ok ic a x) cls"

definition lits_at :: "bool \<Rightarrow> string \<Rightarrow> string \<Rightarrow> nat \<Rightarrow> bool" where
  "lits_at ic w s i =
     (i + length w \<le> length s \<and> (\<forall>k<length w. atom_ok ic (Ch (w ! k)) (s ! (i + k))))"

section \<open>Evaluation lemmas\<close>

declare str_of_nat.simps [simp del]

lemma scenario_columns:
  "normalize_ws ''Name of Beneficial Owner'' = ''Name of Beneficial Owner''"
  "normalize_ws ''Shares'' = ''Shares''"
  "normalize_ws ''Percent of Class'' = ''Percent of Class''"
  by code_simp+

lemma scenario_col_map:
  "detect_ownership_columns [''Name of Beneficial Owner'', ''Shares'', ''Percent of Class'']
     ''name'' = Some 0"
  "detect_ownership_columns [''Name of Beneficial Owner'', ''Shares'', ''Percent of Class'']
     ''percent'' = Some 2"
  "detect_ownership_columns [''Name of Beneficial Owner'', ''Shares'', ''Percent of Class'']
     ''shares'' = Some 1"
  by code_simp+

lemma scenario_cells:
  "to_int (Some ''1,234,567'') = Some 1234567"
  "extract_percent pf (Some ''8.5%'') = Some (Fin (85 / 10))"
  "clean_name_str ''The Vanguard Group, Inc.'' = ''Vanguard Group''"
  "clean_name_str ''Total'' = ''Total''"
  "contains_ci ''total'' ''Vanguard Group'' = False"
  "contains_ci ''total'' ''Total'' = True"
  by code_simp+

section \<open>The column normalizer\<close>

text \<open>
  C5. The table with header \<open>Name of Beneficial Owner\<close>, \<open>Shares\<close>, \<open>Percent of Class\<close>
  and the two rows for The Vanguard Group, Inc. and for Total yields exactly one row:
  holder \<open>Vanguard Group\<close>, 1234567 shares, 8.5 percent. The Total row is dropped.
  This holds whatever \<open>float\<close> does on other strings.
\<close>

theorem scenario_vanguard_total:
  "process_ownership_table pf
     \<lparr>columns = [''Name of Beneficial Owner'', ''Shares'', ''Percent of Class''],
      rows = [[Some ''The Vanguard Group, Inc.'', Some ''1,234,567'', Some ''8.5%''],
              [Some ''Total'', Some ''1,234,567'', Some ''8.5%'']]\<rparr>
   = Inr [\<lparr>holder_raw = ''The Vanguard Group, Inc.'', holder = ''Vanguard Group'',
           percent_class = Some (Fin (85 / 10)), df_shares = Some 1234567\<rparr>]"
  by (simp add: process_ownership_table_def scenario_columns scenario_col_map scenario_cells
      make_row_def keep_row_def cell_at_def astype_str_def Let_def)

text \<open>
  C4. The claim is that the leftmost column with a keyword of a role gets the role.
  With the header \<open>Name of Beneficial Owner\<close>, \<open>Number of Shares Beneficially Owned\<close>,
  \<open>Percent of Class\<close> the first column has a name keyword, and yet the name role goes
  to the second column: the guard \<open>not col_mapping.get('name')\<close> also holds when the
  role was given to column 0, so a later column with a keyword takes the role over.
\<close>

theorem detect_name_column_overwritten:
  "any_in [''name'', ''beneficial'', ''holder'', ''shareholder'']
       (lower ''Name of Beneficial Owner'')
   \<and> detect_ownership_columns
        [''Name of Beneficial Owner'', ''Number of Shares Beneficially Owned'',
         ''Percent of Class''] ''name'' = Some 1"
  by code_simp

section \<open>The fetch layer\<close>






section \<open>The filing locator\<close>

lemma latest_among_iff:
  "latest_among forms dates n i \<longleftrightarrow>
     i < n \<and> is_def14a (forms ! i)
     \<and> (\<forall>j<n. is_def14a (forms ! j) \<longrightarrow> \<not> str_less (dates ! i) (dates ! j))
     \<and> (\<forall>j<i. is_def14a (forms ! j) \<longrightarrow> str_less (dates ! j) (dates ! i))"
  by (auto simp: latest_among_def list_all_iff)

lemma str_less_irrefl [simp]: "\<not> str_less x x"
  by (induction x) auto

lemma str_less_trans: "str_less x y \<Longrightarrow> str_less y z \<Longrightarrow> str_less x z"
proof (induction x y arbitrary: z rule: str_less.induct)
  case (4 x xs y ys)
  then show ?case by (cases z) (auto split: if_splits)
qed (auto elim: str_less.elims)

lemma str_less_total: "\<not> str_less x y \<Longrightarrow> x \<noteq> y \<Longrightarrow> str_less y x"
proof (induction x y rule: str_less.induct)
  case (4 x xs y ys)
  then show ?case by (auto simp: not_less le_less)
qed auto

lemma str_less_le_trans: "\<not> str_less b a \<Longrightarrow> str_less b c \<Longrightarrow> str_less a c"
  using str_less_total str_less_trans by blast

lemma scan_forms_inv:
  assumes "forms = pre @ fs" and "length forms \<le> length dates"
    and "scan_inv forms dates (length pre) latest"
  shows "\<exists>res. scan_forms dates (enumerate (length pre) fs) latest = Inr res
               \<and> scan_inv forms dates (length forms) res"
  using assms
proof (induction fs arbitrary: pre latest)
  case Nil
  then show ?case by simp
next
  case (Cons f fs)
  let ?i = "length pre"
  have fi: "forms ! ?i = f" and il: "?i < length dates"
    using Cons.prems(1,2) by auto
  have split: "forms = (pre @ [f]) @ fs" using Cons.prems(1) by simp
  have next_inv: "scan_inv forms dates (length (pre @ [f])) latest'
      \<Longrightarrow> \<exists>res. scan_forms dates (enumerate (Suc ?i) fs) latest' = Inr res
               \<and> scan_inv forms dates (length forms) res" for latest'
    using Cons.IH[OF split Cons.prems(2), of latest'] by simp
  show ?case
  proof (cases "is_def14a f")
    case False
    have "scan_inv forms dates (length (pre @ [f])) latest"
      using Cons.prems(3) False fi
      by (auto simp: scan_inv_def latest_among_iff list_all_iff less_Suc_eq split: option.splits)
    from next_inv[OF this] show ?thesis using False by simp
  next
    case True
    show ?thesis
    proof (cases latest)
      case None
      have "scan_inv forms dates (length (pre @ [f])) (Some (?i, dates ! ?i))"
        using Cons.prems(3) True fi None
        by (auto simp: scan_inv_def latest_among_iff list_all_iff less_Suc_eq)
      from next_inv[OF this] show ?thesis using True None il by simp
    next
      case (Some p)
      obtain li ld where p: "p = (li, ld)" by (cases p)
      have inv: "ld = dates ! li" "latest_among forms dates ?i li"
        using Cons.prems(3) Some p by (auto simp: scan_inv_def)
      show ?thesis
      proof (cases "str_less ld (dates ! ?i)")
        case less: True
        have "scan_inv forms dates (length (pre @ [f])) (Some (?i, dates ! ?i))"
          unfolding scan_inv_def using inv True fi less
          by (auto simp: latest_among_iff less_Suc_eq
              dest: str_less_trans intro: str_less_le_trans)
        from next_inv[OF this] show ?thesis using True Some p il less by simp
      next
        case False
        have "scan_inv forms dates (length (pre @ [f])) latest"
          unfolding scan_inv_def using inv True fi False Some p
          by (auto simp: latest_among_iff less_Suc_eq)
        from next_inv[OF this] show ?thesis using True Some p il False by simp
      qed
    qed
  qed
qed

lemma latest_among_unique:
  assumes "latest_among forms dates n i" and "latest_among forms dates n j"
  shows "i = j"
proof (rule ccontr)
  assume ne: "i \<noteq> j"
  from assms have a: "i < n" "j < n" "is_def14a (forms ! i)" "is_def14a (forms ! j)"
    by (auto simp: latest_among_iff)
  show False
  proof (cases "i < j")
    case True
    then have "str_less (dates ! i) (dates ! j)" using assms(2) a by (auto simp: latest_among_iff)
    moreover have "\<not> str_less (dates ! i) (dates ! j)" using assms(1) a by (auto simp: latest_among_iff)
    ultimately show False by simp
  next
    case False
    then have "j < i" using ne by simp
    then have "str_less (dates ! j) (dates ! i)" using assms(1) a by (auto simp: latest_among_iff)
    moreover have "\<not> str_less (dates ! j) (dates ! i)" using assms(2) a by (auto simp: latest_among_iff)
    ultimately show False by simp
  qed
qed

lemma scan_forms_result:
  assumes "length (form subs) \<le> length (filingDate subs)"
  shows "(no_match subs \<and> scan_forms (filingDate subs) (enumerate 0 (form subs)) None = Inr None)
       \<or> (\<exists>i. is_latest_match subs i
             \<and> scan_forms (filingDate subs) (enumerate 0 (form subs)) None
                 = Inr (Some (i, filingDate subs ! i)))"
proof -
  have "scan_inv (form subs) (filingDate subs) (length ([]::string list)) None"
    by (simp add: scan_inv_def)
  from scan_forms_inv[OF _ assms this, of "form subs"]
  obtain res where res: "scan_forms (filingDate subs) (enumerate 0 (form subs)) None = Inr res"
      "scan_inv (form subs) (filingDate subs) (length (form subs)) res"
    by auto
  show ?thesis
  proof (cases res)
    case None
    then have "no_match subs" using res(2)
      by (auto simp: scan_inv_def no_match_def list_all_iff in_set_conv_nth)
    then show ?thesis using res None by simp
  next
    case (Some p)
    then show ?thesis using res by (cases p) (auto simp: scan_inv_def is_latest_match_def)
  qed
qed

lemma no_match_not_latest: "no_match subs \<Longrightarrow> \<not> is_latest_match subs i"
  by (auto simp: no_match_def is_latest_match_def latest_among_iff list_all_iff)

lemma find_latest_def14a_spec:
  assumes "length (form subs) \<le> length (filingDate subs)"
    and "length (form subs) \<le> length (accessionNumber subs)"
  shows "(no_match subs \<longrightarrow> find_latest_def14a subs = Inr None)
       \<and> (is_latest_match subs i \<longrightarrow> find_latest_def14a subs
             = Inr (Some (filingDate subs ! i, remove_dashes (accessionNumber subs ! i),
                          doc_at subs i)))
       \<and> (no_match subs \<or> (\<exists>i. is_latest_match subs i))"
proof -
  from scan_forms_result[OF assms(1)] show ?thesis
  proof
    assume a: "no_match subs \<and> scan_forms (filingDate subs) (enumerate 0 (form subs)) None = Inr None"
    then show ?thesis using no_match_not_latest[of subs i] by (simp add: find_latest_def14a_def)
  next
    assume "\<exists>k. is_latest_match subs k
             \<and> scan_forms (filingDate subs) (enumerate 0 (form subs)) None
                 = Inr (Some (k, filingDate subs ! k))"
    then obtain k where k: "is_latest_match subs k"
      "scan_forms (filingDate subs) (enumerate 0 (form subs)) None = Inr (Some (k, filingDate subs ! k))"
      by blast
    have kl: "k < length (accessionNumber subs)"
      using k(1) assms(2) by (auto simp: is_latest_match_def latest_among_iff)
    have uniq: "is_latest_match subs i \<longrightarrow> i = k"
      using k(1) latest_among_unique by (auto simp: is_latest_match_def)
    have nm: "\<not> no_match subs" using k(1) no_match_not_latest by blast
    have "find_latest_def14a subs
        = Inr (Some (filingDate subs ! k, remove_dashes (accessionNumber subs ! k), doc_at subs k))"
      using k(2) kl by (simp add: find_latest_def14a_def doc_at_def Let_def)
    then show ?thesis using k(1) uniq nm by auto
  qed
qed


lemma find_latest_no_match:
  assumes "length (form subs) \<le> length (filingDate subs)"
    and "length (form subs) \<le> length (accessionNumber subs)"
    and "no_match subs"
  shows "find_latest_def14a subs = Inr None"
  using find_latest_def14a_spec[OF assms(1,2), of 0] assms(3) by simp

lemma find_latest_when_match:
  assumes "length (form subs) \<le> length (filingDate subs)"
    and "length (form subs) \<le> length (accessionNumber subs)"
    and "is_latest_match subs i"
  shows "find_latest_def14a subs
      = Inr (Some (filingDate subs ! i, remove_dashes (accessionNumber subs ! i), doc_at subs i))"
  using find_latest_def14a_spec[OF assms(1,2), of i] assms(3) by simp

lemma latest_match_exists:
  assumes "length (form subs) \<le> length (filingDate subs)" and "\<not> no_match subs"
  shows "\<exists>i. is_latest_match subs i"
  using scan_forms_result[OF assms(1)] assms(2) by blast

lemma str_of_nat_320193: "str_of_nat 320193 = ''320193''"
  by (simp add: str_of_nat.simps)

lemma two_filings_latest: "is_latest_match two_filings 1" "is_latest_match two_filings_rev 0"
  by code_simp+

lemma two_filings_dashes:
  "remove_dashes ''0000320193-23-000001'' = ''000032019323000001''"
  "remove_dashes ''0000320193-24-000002'' = ''000032019324000002''"
  by code_simp+

lemma def14a_label: "upper (strip ''DEF 14A'') = ''DEF 14A''"
  by code_simp

lemma filing_without_doc_latest: "is_latest_match filing_without_doc 1"
  by code_simp

text \<open>
  The locator of \<^verbatim>\<open>scrape_proxy_holders.py\<close>. When the date and accession lists
  are as long as the form list, \<open>find_latest_def14a\<close> selects the entry whose form is
  \<open>DEF 14A\<close> or \<open>DEF 14\<close> (whitespace and case aside) with the greatest filing date,
  the first such entry on a tie, and such an entry exists as soon as one entry matches.
\<close>

theorem latest_filing_selection:
  assumes "length (form subs) \<le> length (filingDate subs)"
    and "length (form subs) \<le> length (accessionNumber subs)"
  shows "(is_latest_match subs i \<longrightarrow> find_latest_def14a subs
             = Inr (Some (filingDate subs ! i, remove_dashes (accessionNumber subs ! i),
                          doc_at subs i)))
       \<and> (\<not> no_match subs \<longrightarrow> (\<exists>j. is_latest_match subs j))"
proof -
  have "is_latest_match subs i \<longrightarrow> find_latest_def14a subs
             = Inr (Some (filingDate subs ! i, remove_dashes (accessionNumber subs ! i),
                          doc_at subs i))"
    using find_latest_when_match[OF assms] by simp
  moreover have "\<not> no_match subs \<longrightarrow> (\<exists>j. is_latest_match subs j)"
    using latest_match_exists[OF assms(1)] by simp
  ultimately show ?thesis by (intro conjI) simp_all
qed

theorem latest_filing_selection_witness:
  "find_latest_def14a two_filings
     = Inr (Some (''2024-06-15'', ''000032019324000002'', ''new.htm''))
   \<and> find_latest_def14a two_filings_rev
     = Inr (Some (''2024-06-15'', ''000032019324000002'', ''new.htm''))"
  using latest_filing_selection[of two_filings 1] latest_filing_selection[of two_filings_rev 0]
    two_filings_latest
  by (simp add: doc_at_def two_filings_dashes)

lemma two_filings_found:
  "find_latest_def14a two_filings
     = Inr (Some (''2024-06-15'', ''000032019324000002'', ''new.htm''))"
  using find_latest_when_match[of two_filings 1] two_filings_latest(1)
  by (simp add: doc_at_def two_filings_dashes)

text \<open>
  C2. The claim is that the locator selects the matching entry with the greatest filing
  date, the 2024-06-15 entry of two \<open>DEF 14A\<close> entries in either order. For the entries
  dated 2023-01-01 and 2024-06-15, in this order, \<open>find_latest_def14a\<close> selects the
  second, and \<open>_get_latest_filing_url_fast\<close>, whose loop is to find the latest
  \<open>DEF 14A\<close>, returns the URL of the first: it compares no dates.
\<close>

theorem fast_locator_returns_older_filing:
  "find_latest_def14a two_filings
     = Inr (Some (''2024-06-15'', ''000032019324000002'', ''new.htm''))
   \<and> get_latest_filing_url_fast 320193 two_filings
     = Some ''https://www.sec.gov/Archives/edgar/data/320193/000032019323000001/old.htm''"
  using two_filings_found
  by (simp add: get_latest_filing_url_fast_def enumerate_eq_zip upt_conv_Cons def14a_label
      two_filings_dashes filing_url_def str_of_nat_320193)

text \<open>
  C6. When the date and accession lists are as long as the form list, the locating
  step of the driver yields nothing exactly when no form matches or the selected entry
  has an empty or missing primary document; when the selected entry has a primary
  document it yields the filing date and the URL of that entry. It never raises.
\<close>

theorem locate_filing_none_iff:
  assumes "length (form subs) \<le> length (filingDate subs)"
    and "length (form subs) \<le> length (accessionNumber subs)"
  shows "(locate_filing cik subs = Inr None
            \<longleftrightarrow> no_match subs \<or> (\<exists>i. is_latest_match subs i \<and> doc_at subs i = []))
       \<and> (is_latest_match subs i \<and> doc_at subs i \<noteq> []
            \<longrightarrow> locate_filing cik subs
                  = Inr (Some (filingDate subs ! i,
                       filing_url cik (remove_dashes (accessionNumber subs ! i)) (doc_at subs i))))
       \<and> (locate_filing cik subs = Inr None \<or> (\<exists>ref. locate_filing cik subs = Inr (Some ref)))"
proof (cases "no_match subs")
  case True
  then have "locate_filing cik subs = Inr None"
    using find_latest_no_match[OF assms] by (simp add: locate_filing_def)
  then show ?thesis using True no_match_not_latest[OF True] by simp
next
  case False
  then obtain k where k: "is_latest_match subs k"
    using latest_match_exists[OF assms(1)] by blast
  have loc: "locate_filing cik subs
      = (if doc_at subs k = [] then Inr None
         else Inr (Some (filingDate subs ! k,
                filing_url cik (remove_dashes (accessionNumber subs ! k)) (doc_at subs k))))"
    using find_latest_when_match[OF assms k] by (simp add: locate_filing_def)
  have uniq: "j = k" if "is_latest_match subs j" for j
    using that k latest_among_unique unfolding is_latest_match_def by blast
  have a: "locate_filing cik subs = Inr None
            \<longleftrightarrow> no_match subs \<or> (\<exists>i. is_latest_match subs i \<and> doc_at subs i = [])"
  proof (cases "doc_at subs k = []")
    case True
    then have "\<exists>i. is_latest_match subs i \<and> doc_at subs i = []" using k by blast
    then show ?thesis using loc True by simp
  next
    case nonempty: False
    have "\<not> (\<exists>i. is_latest_match subs i \<and> doc_at subs i = [])"
    proof
      assume "\<exists>i. is_latest_match subs i \<and> doc_at subs i = []"
      then obtain j where "is_latest_match subs j" "doc_at subs j = []" by blast
      then show False using uniq[of j] nonempty by simp
    qed
    then show ?thesis using loc nonempty False by simp
  qed
  have b: "is_latest_match subs i \<and> doc_at subs i \<noteq> []
            \<longrightarrow> locate_filing cik subs
                  = Inr (Some (filingDate subs ! i,
                       filing_url cik (remove_dashes (accessionNumber subs ! i)) (doc_at subs i)))"
  proof
    assume h: "is_latest_match subs i \<and> doc_at subs i \<noteq> []"
    then have "i = k" using uniq[of i] by simp
    then show "locate_filing cik subs
                  = Inr (Some (filingDate subs ! i,
                       filing_url cik (remove_dashes (accessionNumber subs ! i)) (doc_at subs i)))"
      using loc h by simp
  qed
  have c: "locate_filing cik subs = Inr None \<or> (\<exists>ref. locate_filing cik subs = Inr (Some ref))"
    using loc by (cases "doc_at subs k = []") simp_all
  from a b c show ?thesis by (intro conjI)
qed

theorem locate_filing_none_iff_witness:
  "locate_filing 320193 two_filings
     = Inr (Some (''2024-06-15'',
         ''https://www.sec.gov/Archives/edgar/data/320193/000032019324000002/new.htm''))
   \<and> locate_filing 320193 filing_without_doc = Inr None"
proof -
  have 1: "locate_filing 320193 two_filings
     = Inr (Some (''2024-06-15'',
         ''https://www.sec.gov/Archives/edgar/data/320193/000032019324000002/new.htm''))"
    using locate_filing_none_iff[of two_filings 320193 1] two_filings_latest(1)
    by (simp add: doc_at_def two_filings_dashes filing_url_def str_of_nat_320193)
  have "\<exists>i. is_latest_match filing_without_doc i \<and> doc_at filing_without_doc i = []"
    using filing_without_doc_latest by (intro exI[of _ 1]) (simp add: doc_at_def)
  then have 2: "locate_filing 320193 filing_without_doc = Inr None"
    using locate_filing_none_iff[of filing_without_doc 320193 0] by simp
  show ?thesis using 1 2 by simp
qed



section \<open>Emitted records\<close>

lemma first_record_Some:
  "first_record f ps = Some r \<Longrightarrow> \<exists>p \<in> set ps. f p = Some r"
  by (induction ps) (auto split: option.splits)

lemma simple_record_name:
  "simple_record today content tick company n p = Some r \<Longrightarrow> holder_name r = n"
  by (auto simp: simple_record_def Let_def split: option.splits if_splits)

lemma fast_record_name:
  "fast_record today content tick company n p = Some r \<Longrightarrow> holder_name r = n"
  by (auto simp: fast_record_def Let_def split: option.splits if_splits)

lemma simple_record_quantity:
  "simple_record today content tick company n p = Some r
     \<Longrightarrow> truthy_int (shares r) \<or> truthy_float (percent_owned r)"
  by (auto simp: simple_record_def Let_def split: option.splits if_splits)

lemma fast_record_quantity:
  "fast_record today content tick company n p = Some r
     \<Longrightarrow> truthy_int (shares r) \<or> truthy_float (percent_owned r)"
  by (auto simp: fast_record_def Let_def split: option.splits if_splits)

lemma float_bounds:
  "float_of_decimal ''0.1'' = Fin (3602879701896397 / 36028797018963968)"
  "float_of_decimal ''50.0'' = Fin 50"
  by code_simp+

lemma py_le_between:
  "py_le (Fin a) x \<Longrightarrow> py_le x (Fin b) \<Longrightarrow> \<exists>q. x = Fin q \<and> a \<le> q \<and> q \<le> b"
  by (cases x) simp_all

lemma fast_record_guard:
  "fast_record today content tick company n p = Some r \<Longrightarrow> percent_owned r = Some v
     \<Longrightarrow> py_le (float_of_decimal ''0.1'') v \<and> py_le v (float_of_decimal ''50.0'')"
  by (auto simp: fast_record_def Let_def split: option.splits if_splits)

lemma fast_record_percent:
  assumes "fast_record today content tick company n p = Some r" and "percent_owned r = Some v"
  shows "\<exists>q. v = Fin q \<and> 3602879701896397 / 36028797018963968 \<le> q \<and> q \<le> 50"
proof -
  have "py_le (Fin (3602879701896397 / 36028797018963968)) v" and "py_le v (Fin 50)"
    using fast_record_guard[OF assms] by (simp_all only: float_bounds)
  then show ?thesis by (rule py_le_between)
qed

lemma truthy_not_None:
  "truthy_int s \<or> truthy_float p \<Longrightarrow> s \<noteq> None \<or> p \<noteq> None"
  by (auto simp: truthy_int_def truthy_float_def)

lemma per_institution_records:
  assumes "r \<in> set (List.map_filter (\<lambda>(n, ps). first_record (g n) ps) insts)"
  shows "\<exists>n ps p. (n, ps) \<in> set insts \<and> p \<in> set ps \<and> g n p = Some r"
proof -
  from assms obtain n ps where "(n, ps) \<in> set insts" "first_record (g n) ps = Some r"
    by (auto simp: map_filter_def split: prod.splits option.splits)
  then show ?thesis using first_record_Some by fastforce
qed

lemma per_institution_distinct:
  assumes "distinct (map fst insts)"
    and "\<And>n p r. g n p = Some r \<Longrightarrow> holder_name r = n"
  shows "distinct (map holder_name (List.map_filter (\<lambda>(n, ps). first_record (g n) ps) insts))"
  using assms(1)
proof (induction insts)
  case Nil
  then show ?case by (simp add: map_filter_simps)
next
  case (Cons a insts)
  obtain n ps where a: "a = (n, ps)" by (cases a)
  have rest: "distinct (map holder_name (List.map_filter (\<lambda>(n, ps). first_record (g n) ps) insts))"
    using Cons by simp
  have fresh: "n \<notin> holder_name ` set (List.map_filter (\<lambda>(n, ps). first_record (g n) ps) insts)"
  proof
    assume "n \<in> holder_name ` set (List.map_filter (\<lambda>(n, ps). first_record (g n) ps) insts)"
    then obtain r where r: "r \<in> set (List.map_filter (\<lambda>(n, ps). first_record (g n) ps) insts)"
        "holder_name r = n" by auto
    from per_institution_records[OF r(1)] obtain m qs q where
        "(m, qs) \<in> set insts" "g m q = Some r" by blast
    then have "n \<in> fst ` set insts" using assms(2)[of m q r] r(2) by force
    then show False using Cons.prems a by simp
  qed
  show ?case
  proof (cases "first_record (g n) ps")
    case None
    then show ?thesis using rest a by (simp add: map_filter_simps)
  next
    case (Some r)
    then have "holder_name r = n" using first_record_Some assms(2) by blast
    then show ?thesis using rest a Some fresh by (simp add: map_filter_simps)
  qed
qed

lemma institution_names_distinct:
  "distinct (map fst institutions)" "distinct (map fst major_institutions)"
  by code_simp+

lemma validate_percent_range:
  "validate_percent x = Some v \<Longrightarrow> \<exists>q. v = Fin q \<and> 0 \<le> q \<and> q \<le> 100"
  by (cases v) (auto simp: validate_percent_def split: option.splits if_splits)

lemma two_holders_simple:
  "extract_holders_simple ''2025-01-01'' ''Vanguard Group 1,234,567 8.5% BlackRock Fund''
     ''AAPL'' ''Apple Inc.'' = [vanguard_row, blackrock_row]"
  by code_simp

lemma two_holders_fast:
  "extract_institutional_holders_fast ''2025-01-01''
     ''Vanguard Group 1,234,567 8.5% BlackRock Fund'' ''AAPL'' ''Apple Inc.''
     = [vanguard_row, blackrock_row]"
  by code_simp

lemma rounded_50_fast:
  "extract_institutional_holders_fast ''2025-01-01''
     ''Vanguard Group 50.000000000000000001%'' ''AAPL'' ''Apple Inc.''
     = [\<lparr>ticker = ''AAPL'', company_name = ''Apple Inc.'', holder_name = ''Vanguard Group'',
         shares = None, percent_owned = Some (Fin 50), filing_date = ''2025-01-01''\<rparr>]"
  by code_simp

lemma stake_250_simple:
  "extract_holders_simple ''2025-01-01'' ''Vanguard Group: 250%'' ''AAPL'' ''Apple Inc.''
     = [\<lparr>ticker = ''AAPL'', company_name = ''Apple Inc.'', holder_name = ''Vanguard Group'',
         shares = None, percent_owned = Some (Fin 250), filing_date = ''2025-01-01''\<rparr>]"
  by code_simp

lemma unnamed_columns:
  "normalize_ws ''Name'' = ''Name''" "normalize_ws ''Title'' = ''Title''"
  "detect_ownership_columns [''Name'', ''Title''] ''name'' = Some 0"
  "detect_ownership_columns [''Name'', ''Title''] ''percent'' = None"
  "detect_ownership_columns [''Name'', ''Title''] ''shares'' = None"
  "clean_name_str ''Jane Doe'' = ''Jane Doe''"
  "contains_ci ''total'' ''Jane Doe'' = False"
  by code_simp+

text \<open>
  C10. Both pattern extractors emit at most one record per institution: the holder
  names of the records of one filing are pairwise distinct.
\<close>

theorem one_record_per_institution:
  "distinct (map holder_name (extract_holders_simple today content tick company))
   \<and> distinct (map holder_name (extract_institutional_holders_fast today content tick company))"
  unfolding extract_holders_simple_def extract_institutional_holders_fast_def
  using per_institution_distinct[OF institution_names_distinct(1),
      of "simple_record today content tick company"]
    per_institution_distinct[OF institution_names_distinct(2),
      of "fast_record today content tick company"]
    simple_record_name fast_record_name
  by blast

theorem one_record_per_institution_witness:
  "map holder_name (extract_holders_simple ''2025-01-01''
       ''Vanguard Group 1,234,567 8.5% BlackRock Fund'' ''AAPL'' ''Apple Inc.'')
     = [''Vanguard Group'', ''BlackRock'']
   \<and> distinct [''Vanguard Group'', ''BlackRock'']"
  using one_record_per_institution[of "''2025-01-01''"
      "''Vanguard Group 1,234,567 8.5% BlackRock Fund''" "''AAPL''" "''Apple Inc.''"]
  by (simp add: two_holders_simple)

text \<open>
  C1, as amended. Every record that the pattern extractors \<open>_extract_holders_simple\<close>
  and \<open>_extract_institutional_holders_fast\<close> emit has a share count or a percentage.
\<close>

theorem pattern_records_have_quantity:
  "\<forall>r \<in> set (extract_holders_simple today content tick company)
         \<union> set (extract_institutional_holders_fast today content tick company).
     shares r \<noteq> None \<or> percent_owned r \<noteq> None"
proof
  fix r
  assume "r \<in> set (extract_holders_simple today content tick company)
         \<union> set (extract_institutional_holders_fast today content tick company)"
  then consider
      (simple) n p where "simple_record today content tick company n p = Some r"
    | (fast) n p where "fast_record today content tick company n p = Some r"
    unfolding extract_holders_simple_def extract_institutional_holders_fast_def
    using per_institution_records[of r "simple_record today content tick company" institutions]
      per_institution_records[of r "fast_record today content tick company" major_institutions]
    by blast
  then show "shares r \<noteq> None \<or> percent_owned r \<noteq> None"
    using simple_record_quantity fast_record_quantity truthy_not_None by cases blast+
qed


theorem pattern_records_have_quantity_witness:
  "vanguard_row \<in> set (extract_holders_simple ''2025-01-01''
       ''Vanguard Group 1,234,567 8.5% BlackRock Fund'' ''AAPL'' ''Apple Inc.'')
   \<and> \<not> (shares vanguard_row = None \<and> percent_owned vanguard_row = None)"
  using pattern_records_have_quantity[of "''2025-01-01''"
      "''Vanguard Group 1,234,567 8.5% BlackRock Fund''" "''AAPL''" "''Apple Inc.''"]
  by (simp add: two_holders_simple)

text \<open>
  C1, as stated, fails on the table path: \<open>process_ownership_table\<close> keeps a row
  whatever its numbers are. A table with the columns \<open>Name\<close> and \<open>Title\<close> yields a
  row with neither a share count nor a percentage.
\<close>

theorem table_row_without_quantity_counterexample:
  "process_ownership_table (\<lambda>s. None)
     \<lparr>columns = [''Name'', ''Title''], rows = [[Some ''Jane Doe'', Some ''Director'']]\<rparr>
   = Inr [unnamed_row]
   \<and> df_shares unnamed_row = None \<and> percent_class unnamed_row = None"
  by (simp add: process_ownership_table_def unnamed_columns make_row_def keep_row_def
      cell_at_def astype_str_def Let_def)

text \<open>
  C3, as amended. After the check at the end of \<open>fetch_ownership_for_sp500\<close> a
  percentage that is present lies in [0, 100], and a percentage that
  \<open>_extract_institutional_holders_fast\<close> emits lies between the floats \<open>0.1\<close>, which
  is 3602879701896397 / 2 ^ 55, and \<open>50.0\<close>, so in [0, 100] as well. The float of
  the numeral is what is checked: \<open>50.000000000000000001\<close> reads 50.0 and is emitted.
\<close>

theorem percent_within_bounds:
  "(\<forall>r \<in> set (combine_frames frames). \<forall>v. percent_class r = Some v
       \<longrightarrow> (\<exists>q. v = Fin q \<and> 0 \<le> q \<and> q \<le> 100))
   \<and> (\<forall>r \<in> set (extract_institutional_holders_fast today content tick company).
        \<forall>v. percent_owned r = Some v
          \<longrightarrow> (\<exists>q. v = Fin q \<and> 3602879701896397 / 36028797018963968 \<le> q \<and> q \<le> 50))"
proof (intro conjI ballI allI impI)
  fix r v
  assume "r \<in> set (combine_frames frames)" and v: "percent_class r = Some v"
  then obtain r0 where "r = r0\<lparr>percent_class := validate_percent (percent_class r0)\<rparr>"
    by (auto simp: combine_frames_def)
  then have "validate_percent (percent_class r0) = Some v" using v by simp
  then show "\<exists>q. v = Fin q \<and> 0 \<le> q \<and> q \<le> 100" by (rule validate_percent_range)
next
  fix r v
  assume "r \<in> set (extract_institutional_holders_fast today content tick company)"
    and v: "percent_owned r = Some v"
  then obtain n p where "fast_record today content tick company n p = Some r"
    unfolding extract_institutional_holders_fast_def
    using per_institution_records[of r "fast_record today content tick company" major_institutions]
    by blast
  then show "\<exists>q. v = Fin q \<and> 3602879701896397 / 36028797018963968 \<le> q \<and> q \<le> 50"
    using v by (rule fast_record_percent)
qed

theorem percent_within_bounds_witness:
  "combine_frames [[\<lparr>holder_raw = ''Acme Capital'', holder = ''Acme Capital'',
        percent_class = Some (Fin 250), df_shares = Some 1000\<rparr>,
      \<lparr>holder_raw = ''The Vanguard Group, Inc.'', holder = ''Vanguard Group'',
        percent_class = Some (Fin (85 / 10)), df_shares = Some 1234567\<rparr>]]
   = [\<lparr>holder_raw = ''Acme Capital'', holder = ''Acme Capital'',
        percent_class = None, df_shares = Some 1000\<rparr>,
      \<lparr>holder_raw = ''The Vanguard Group, Inc.'', holder = ''Vanguard Group'',
        percent_class = Some (Fin (85 / 10)), df_shares = Some 1234567\<rparr>]
   \<and> vanguard_row \<in> set (extract_institutional_holders_fast ''2025-01-01''
         ''Vanguard Group 1,234,567 8.5% BlackRock Fund'' ''AAPL'' ''Apple Inc.'')
   \<and> percent_owned vanguard_row = Some (Fin (85 / 10))
   \<and> extract_institutional_holders_fast ''2025-01-01''
         ''Vanguard Group 50.000000000000000001%'' ''AAPL'' ''Apple Inc.''
       = [\<lparr>ticker = ''AAPL'', company_name = ''Apple Inc.'', holder_name = ''Vanguard Group'',
           shares = None, percent_owned = Some (Fin 50), filing_date = ''2025-01-01''\<rparr>]"
  using percent_within_bounds[of "[[\<lparr>holder_raw = ''Acme Capital'', holder = ''Acme Capital'',
        percent_class = Some (Fin 250), df_shares = Some 1000\<rparr>,
      \<lparr>holder_raw = ''The Vanguard Group, Inc.'', holder = ''Vanguard Group'',
        percent_class = Some (Fin (85 / 10)), df_shares = Some 1234567\<rparr>]]"
      "''2025-01-01''" "''Vanguard Group 1,234,567 8.5% BlackRock Fund''" "''AAPL''" "''Apple Inc.''"]
  by (simp add: two_holders_fast rounded_50_fast combine_frames_def validate_percent_def)

text \<open>
  C3, as stated, fails for \<open>_extract_holders_simple\<close>, which checks no range: the
  text \<open>Vanguard Group: 250%\<close> yields a record with 250 percent.
\<close>

theorem simple_scraper_percent_counterexample:
  "extract_holders_simple ''2025-01-01'' ''Vanguard Group: 250%'' ''AAPL'' ''Apple Inc.''
     = [\<lparr>ticker = ''AAPL'', company_name = ''Apple Inc.'', holder_name = ''Vanguard Group'',
         shares = None, percent_owned = Some (Fin 250), filing_date = ''2025-01-01''\<rparr>]
   \<and> \<not> (250 :: rat) \<le> 100"
  by (simp add: stake_250_simple)



section \<open>Holder name canonicalization\<close>

lemma single_spaced_append:
  "single_spaced (xs @ ys) \<Longrightarrow> single_spaced xs \<and> single_spaced ys"
proof (induction xs)
  case Nil
  then show ?case by simp
next
  case (Cons c xs)
  then show ?case by (cases xs) auto
qed

lemma collapse_from_single_spaced:
  "single_spaced (collapse_from b s)
   \<and> (b \<longrightarrow> collapse_from b s = [] \<or> \<not> is_space (hd (collapse_from b s)))"
  by (induction s arbitrary: b) auto

lemma collapse_from_fixed:
  "single_spaced t \<Longrightarrow> (b \<longrightarrow> t = [] \<or> \<not> is_space (hd t)) \<Longrightarrow> collapse_from b t = t"
proof (induction t arbitrary: b)
  case Nil
  then show ?case by simp
next
  case (Cons c cs)
  show ?case
  proof (cases "is_space c")
    case True
    then have nb: "\<not> b" and c: "c = CHR '' ''" and nxt: "cs = [] \<or> \<not> is_space (hd cs)"
      using Cons.prems by auto
    have "collapse_from True cs = cs" using Cons.IH[of True] Cons.prems(1) nxt by simp
    then show ?thesis using True nb c by simp
  next
    case False
    have "collapse_from False cs = cs" using Cons.IH[of False] Cons.prems(1) by simp
    then show ?thesis using False by simp
  qed
qed

lemma strip_prefix_suffix: "\<exists>pre post. s = pre @ strip s @ post"
proof -
  let ?u = "dropWhile is_space s"
  have "s = takeWhile is_space s @ ?u" by simp
  moreover have "rev ?u = takeWhile is_space (rev ?u) @ dropWhile is_space (rev ?u)" by simp
  then have "?u = rev (dropWhile is_space (rev ?u)) @ rev (takeWhile is_space (rev ?u))"
    by (metis rev_append rev_rev_ident)
  ultimately have "s = takeWhile is_space s @ strip s @ rev (takeWhile is_space (rev ?u))"
    by (simp add: strip_def)
  then show ?thesis by blast
qed

lemma strip_trimmed: "trimmed (strip s)"
proof (cases "strip s = []")
  case True
  then show ?thesis by (simp add: trimmed_def)
next
  case False
  let ?u = "dropWhile is_space s"
  let ?v = "dropWhile is_space (rev ?u)"
  have v: "?v \<noteq> []" "strip s = rev ?v" using False by (simp_all add: strip_def)
  have lastok: "\<not> is_space (last (strip s))"
    using v hd_dropWhile[of is_space "rev ?u"] by (simp add: last_rev)
  have u: "?u \<noteq> []"
  proof
    assume a: "?u = []"
    have "?v = []" unfolding a by simp
    with v(1) show False by blast
  qed
  then obtain c u' where cu: "?u = c # u'" by (cases ?u) auto
  have c: "\<not> is_space c" using hd_dropWhile[of is_space s] u cu by simp
  have "rev ?u = rev u' @ [c]" using cu by simp
  then have "?v = dropWhile is_space (rev u') @ [c]" using c by (simp add: dropWhile_append3)
  then have "strip s = c # rev (dropWhile is_space (rev u'))" using v by simp
  then show ?thesis using c lastok by (simp add: trimmed_def)
qed

lemma strip_fixed: "trimmed t \<Longrightarrow> strip t = t"
proof (cases "t = []")
  case True
  then show ?thesis by (simp add: strip_def)
next
  case False
  assume "trimmed t"
  then have h: "\<not> is_space (hd t)" and l: "\<not> is_space (last t)"
    using False by (auto simp: trimmed_def)
  have 1: "dropWhile is_space t = t" using h False by (cases t) auto
  have "rev t \<noteq> []" "\<not> is_space (hd (rev t))" using False l by (simp_all add: hd_rev)
  then have "dropWhile is_space (rev t) = rev t" by (cases "rev t") auto
  then show ?thesis using 1 by (simp add: strip_def)
qed

lemma normalize_ws_idem: "normalize_ws (normalize_ws s) = normalize_ws s"
proof -
  let ?t = "normalize_ws s"
  obtain pre post where "collapse_ws s = pre @ ?t @ post"
    using strip_prefix_suffix[of "collapse_ws s"] by (auto simp: normalize_ws_def)
  moreover have "single_spaced (collapse_ws s)"
    using collapse_from_single_spaced[of False s] by (simp add: collapse_ws_def)
  ultimately have ss: "single_spaced ?t" using single_spaced_append by metis
  have tr: "trimmed ?t" using strip_trimmed by (simp add: normalize_ws_def)
  have "collapse_ws ?t = ?t" using collapse_from_fixed[OF ss, of False] by (simp add: collapse_ws_def)
  then show ?thesis using strip_fixed[OF tr] by (simp add: normalize_ws_def)
qed

lemma labels_fixed:
  "clean_name_str ''Vanguard Group'' = ''Vanguard Group''"
  "clean_name_str ''BlackRock'' = ''BlackRock''"
  "clean_name_str ''State Street'' = ''State Street''"
  "clean_name_str ''Fidelity'' = ''Fidelity''"
  "clean_name_str ''T. Rowe Price'' = ''T. Rowe Price''"
  "clean_name_str ''Berkshire Hathaway'' = ''Berkshire Hathaway''"
  by code_simp+

lemma alias_label_fixed:
  "first_alias aliases low = Some repl \<Longrightarrow> clean_name_str repl = repl"
  unfolding aliases_def
  by (simp split: if_splits) (use labels_fixed in blast)+

lemma clean_name_str_idem: "clean_name_str (clean_name_str x) = clean_name_str x"
proof (cases "first_alias aliases (lower (normalize_ws x))")
  case None
  then show ?thesis by (simp add: clean_name_str_def normalize_ws_idem)
next
  case (Some repl)
  then have "clean_name_str repl = repl" by (rule alias_label_fixed)
  moreover have "clean_name_str x = repl" using Some by (simp add: clean_name_str_def)
  ultimately show ?thesis by simp
qed

text \<open>
  C7. \<open>clean_holder_name\<close> is idempotent: every label of an alias rule is matched by
  its own rule and by no earlier one, and a normalized name that no rule matches is
  normalized to itself. A value that is not a string is returned as it is.
\<close>

theorem clean_holder_name_idempotent:
  "clean_holder_name (clean_holder_name x) = clean_holder_name x"
  by (cases x) (simp_all add: clean_name_str_idem)



section \<open>The content-type sniffer\<close>

lemma first_from_None:
  "first_from f i n = None \<longleftrightarrow> (\<forall>k<n. f (i + k) = None)"
proof (induction n arbitrary: i)
  case 0
  then show ?case by simp
next
  case (Suc n)
  have shift: "(\<forall>k<Suc n. f (i + k) = None) \<longleftrightarrow> f i = None \<and> (\<forall>k<n. f (Suc i + k) = None)"
    by (auto simp: less_Suc_eq_0_disj)
  show ?case
  proof (cases "f i")
    case None
    then show ?thesis using Suc.IH[of "Suc i"] shift by simp
  next
    case (Some v)
    then show ?thesis using shift by simp
  qed
qed

lemma first_from_0_None: "first_from f 0 n = None \<longleftrightarrow> (\<forall>k<n. f k = None)"
  using first_from_None[of f 0 n] by simp

lemma re_search_None:
  "re_search r ic s = None \<longleftrightarrow> (\<forall>i\<le>length s. re_ends r ic s i = [])"
proof -
  let ?g = "\<lambda>i. case re_ends r ic s i of [] \<Rightarrow> None | e # _ \<Rightarrow> Some (i, e)"
  have g: "?g k = None \<longleftrightarrow> re_ends r ic s k = []" for k
    by (cases "re_ends r ic s k") simp_all
  have "re_search r ic s = None \<longleftrightarrow> (\<forall>k<Suc (length s). ?g k = None)"
    unfolding re_search_def by (rule first_from_0_None)
  also have "\<dots> \<longleftrightarrow> (\<forall>k<Suc (length s). re_ends r ic s k = [])"
    by (simp only: g)
  also have "\<dots> \<longleftrightarrow> (\<forall>i\<le>length s. re_ends r ic s i = [])"
    by (simp only: less_Suc_eq_le)
  finally show ?thesis .
qed

lemma re_search_found:
  "re_search r ic s \<noteq> None \<longleftrightarrow> (\<exists>i\<le>length s. re_ends r ic s i \<noteq> [])"
  by (simp only: re_search_None not_all not_imp)

lemma lits_at_bound: "lits_at ic w s i \<Longrightarrow> i \<le> length s"
  by (simp add: lits_at_def)

lemma re_ends_Lits:
  "i \<le> length s \<Longrightarrow> re_ends (Lits w) ic s i = (if lits_at ic w s i then [i + length w] else [])"
proof (induction w arbitrary: i)
  case Nil
  then show ?case by (simp add: Lits_def lits_at_def)
next
  case (Cons c w)
  have unfold: "Lits (c # w) = Seq (Lit c) (Lits w)" by (simp add: Lits_def)
  have split: "lits_at ic (c # w) s i
      \<longleftrightarrow> i < length s \<and> atom_ok ic (Ch c) (s ! i) \<and> lits_at ic w s (Suc i)"
  proof -
    have "(\<forall>k<Suc (length w). atom_ok ic (Ch ((c # w) ! k)) (s ! (i + k)))
        \<longleftrightarrow> atom_ok ic (Ch c) (s ! i) \<and> (\<forall>k<length w. atom_ok ic (Ch (w ! k)) (s ! (Suc i + k)))"
      by (auto simp: less_Suc_eq_0_disj)
    then show ?thesis by (auto simp: lits_at_def)
  qed
  show ?case
  proof (cases "i < length s \<and> atom_ok ic (Ch c) (s ! i)")
    case True
    then have "re_ends (Lits (c # w)) ic s i = re_ends (Lits w) ic s (Suc i)"
      unfolding unfold by (simp add: Lit_def)
    then show ?thesis using Cons.IH[of "Suc i"] True split by simp
  next
    case False
    then have "re_ends (Lits (c # w)) ic s i = []"
      unfolding unfold by (auto simp: Lit_def)
    then show ?thesis using False split by auto
  qed
qed

lemma take_eq_iff_nth:
  "take (length w) xs = w \<longleftrightarrow> length w \<le> length xs \<and> (\<forall>k<length w. xs ! k = w ! k)"
  by (auto simp: list_eq_iff_nth_eq)

lemma contains_iff:
  "contains w s \<longleftrightarrow> (\<exists>i. i + length w \<le> length s \<and> (\<forall>k<length w. s ! (i + k) = w ! k))"
proof (induction s)
  case Nil
  then show ?case by auto
next
  case (Cons c cs)
  let ?P = "\<lambda>i. i + length w \<le> length (c # cs) \<and> (\<forall>k<length w. (c # cs) ! (i + k) = w ! k)"
  have here: "take (length w) (c # cs) = w \<longleftrightarrow> ?P 0"
    using take_eq_iff_nth[of w "c # cs"] by simp
  have later: "contains w cs \<longleftrightarrow> (\<exists>i. ?P (Suc i))"
    using Cons.IH by simp
  have "(\<exists>i. ?P i) \<longleftrightarrow> ?P 0 \<or> (\<exists>i. ?P (Suc i))"
  proof
    assume "\<exists>i. ?P i"
    then obtain i where i: "?P i" by blast
    show "?P 0 \<or> (\<exists>i. ?P (Suc i))"
    proof (cases i)
      case 0
      then show ?thesis using i by blast
    next
      case (Suc j)
      then show ?thesis using i by blast
    qed
  next
    assume "?P 0 \<or> (\<exists>i. ?P (Suc i))"
    then show "\<exists>i. ?P i" by blast
  qed
  moreover have "contains w (c # cs) \<longleftrightarrow> ?P 0 \<or> (\<exists>i. ?P (Suc i))"
    unfolding contains.simps here later ..
  ultimately show ?case by blast
qed

lemma contains_lits_at:
  "contains w s \<longleftrightarrow> (\<exists>i\<le>length s. lits_at False w s i)"
proof -
  have "contains w s \<longleftrightarrow> (\<exists>i. lits_at False w s i)"
    unfolding contains_iff lits_at_def by simp
  then show ?thesis using lits_at_bound by blast
qed

lemma contains_ci_lits_at:
  "contains_ci w s \<longleftrightarrow> (\<exists>i\<le>length s. lits_at True w s i)"
proof -
  have "contains_ci w s \<longleftrightarrow> (\<exists>i. i + length w \<le> length s
          \<and> (\<forall>k<length w. lower_char (s ! (i + k)) = lower_char (w ! k)))"
    unfolding contains_ci_def contains_iff lower_def by auto
  then have "contains_ci w s \<longleftrightarrow> (\<exists>i. lits_at True w s i)"
    unfolding lits_at_def by simp
  then show ?thesis using lits_at_bound by blast
qed

lemma search_Lits:
  "(\<exists>i\<le>length s. re_ends (Lits w) ic s i \<noteq> []) \<longleftrightarrow> (\<exists>i\<le>length s. lits_at ic w s i)"
proof -
  have "re_ends (Lits w) ic s i \<noteq> [] \<longleftrightarrow> lits_at ic w s i" if "i \<le> length s" for i
    using that by (simp add: re_ends_Lits)
  then show ?thesis by blast
qed

lemma search_Alt:
  "(\<exists>i\<le>length s. re_ends (Alt a b) ic s i \<noteq> [])
     \<longleftrightarrow> (\<exists>i\<le>length s. re_ends a ic s i \<noteq> []) \<or> (\<exists>i\<le>length s. re_ends b ic s i \<noteq> [])"
  by auto

lemma html_pattern_found:
  "re_search html_pattern True s \<noteq> None
     \<longleftrightarrow> contains_ci ''<!DOCTYPE html'' s \<or> contains_ci ''</html>'' s"
  unfolding re_search_found html_pattern_def search_Alt search_Lits contains_ci_lits_at ..


lemma re_ends_Seq_nonempty:
  "re_ends (Seq a b) ic s i \<noteq> [] \<longleftrightarrow> (\<exists>e \<in> set (re_ends a ic s i). re_ends b ic s e \<noteq> [])"
  by (auto simp: concat_eq_Nil_conv)

lemma re_ends_Cls:
  "re_ends (Cls cls) ic s i = (if i < length s \<and> class_ok ic cls (s ! i) then [Suc i] else [])"
  by (simp add: class_ok_def)

lemma rep_ends_star_step:
  "rep_ends f True (Suc fuel) 0 None i
     = concat (map (\<lambda>j. if j \<le> i then [] else rep_ends f True fuel 0 None j) (f i)) @ [i]"
  by (simp add: bound_left_def bound_dec_def cong: if_cong)

lemma rep_ends_plus_step:
  "rep_ends f True (Suc fuel) (Suc 0) None i = concat (map (rep_ends f True fuel 0 None) (f i))"
  by (simp add: bound_left_def bound_dec_def)

lemma star_step_ends:
  assumes f: "\<And>j. f j = (if j < n \<and> P j then [Suc j] else [])"
    and "i \<le> n" and "n - i \<le> fuel"
  shows "set (rep_ends f True fuel 0 None i)
           = {e. i \<le> e \<and> e \<le> n \<and> (\<forall>k. i \<le> k \<and> k < e \<longrightarrow> P k)}"
  using assms(2,3)
proof (induction fuel arbitrary: i)
  case 0
  then have "i = n" by simp
  then show ?case by auto
next
  case (Suc fuel)
  let ?R = "\<lambda>j. {e. j \<le> e \<and> e \<le> n \<and> (\<forall>k. j \<le> k \<and> k < e \<longrightarrow> P k)}"
  show ?case
  proof (cases "i < n \<and> P i")
    case True
    have "set (rep_ends f True fuel 0 None (Suc i)) = ?R (Suc i)"
      using Suc.prems True by (intro Suc.IH) auto
    moreover have "f i = [Suc i]" using True f[of i] by auto
    then have "rep_ends f True (Suc fuel) 0 None i = rep_ends f True fuel 0 None (Suc i) @ [i]"
      unfolding rep_ends_star_step by simp
    ultimately have "set (rep_ends f True (Suc fuel) 0 None i) = ?R (Suc i) \<union> {i}"
      by simp
    moreover have "?R (Suc i) \<union> {i} = ?R i"
    proof (intro set_eqI iffI)
      fix e assume "e \<in> ?R (Suc i) \<union> {i}"
      then show "e \<in> ?R i"
      proof
        assume e: "e \<in> ?R (Suc i)"
        have "P k" if "i \<le> k \<and> k < e" for k
          using that e True by (cases "k = i") auto
        then show ?thesis using e by auto
      next
        assume "e \<in> {i}"
        then show ?thesis using True by auto
      qed
    next
      fix e assume e: "e \<in> ?R i"
      show "e \<in> ?R (Suc i) \<union> {i}"
      proof (cases "e = i")
        case True
        then show ?thesis by simp
      next
        case False
        then show ?thesis using e by auto
      qed
    qed
    ultimately show ?thesis by simp
  next
    case False
    have "f i = []" using False f[of i] by auto
    then have "rep_ends f True (Suc fuel) 0 None i = [i]"
      unfolding rep_ends_star_step by simp
    moreover have "?R i = {i}"
    proof (intro set_eqI iffI)
      fix e assume e: "e \<in> ?R i"
      have "\<not> i < e"
      proof
        assume "i < e"
        then have "i < n" "P i" using e by auto
        then show False using False by simp
      qed
      then show "e \<in> {i}" using e by auto
    next
      fix e assume "e \<in> {i}"
      then show "e \<in> ?R i" using Suc.prems by auto
    qed
    ultimately show ?thesis by simp
  qed
qed

lemma plus_step_ends:
  assumes f: "\<And>j. f j = (if j < n \<and> P j then [Suc j] else [])" and "i \<le> n"
  shows "set (rep_ends f True (Suc n) (Suc 0) None i)
           = {e. i < e \<and> e \<le> n \<and> (\<forall>k. i \<le> k \<and> k < e \<longrightarrow> P k)}"
proof (cases "i < n \<and> P i")
  case True
  have "f i = [Suc i]" using True f[of i] by auto
  then have "rep_ends f True (Suc n) (Suc 0) None i = rep_ends f True n 0 None (Suc i)"
    unfolding rep_ends_plus_step by simp
  moreover have "set (rep_ends f True n 0 None (Suc i))
      = {e. Suc i \<le> e \<and> e \<le> n \<and> (\<forall>k. Suc i \<le> k \<and> k < e \<longrightarrow> P k)}"
    using True by (intro star_step_ends[OF f]) auto
  moreover have "{e. Suc i \<le> e \<and> e \<le> n \<and> (\<forall>k. Suc i \<le> k \<and> k < e \<longrightarrow> P k)}
      = {e. i < e \<and> e \<le> n \<and> (\<forall>k. i \<le> k \<and> k < e \<longrightarrow> P k)}"
  proof (intro set_eqI iffI)
    fix e
    assume e: "e \<in> {e. Suc i \<le> e \<and> e \<le> n \<and> (\<forall>k. Suc i \<le> k \<and> k < e \<longrightarrow> P k)}"
    have "P k" if "i \<le> k \<and> k < e" for k
      using that e True by (cases "k = i") auto
    then show "e \<in> {e. i < e \<and> e \<le> n \<and> (\<forall>k. i \<le> k \<and> k < e \<longrightarrow> P k)}"
      using e by auto
  next
    fix e
    assume "e \<in> {e. i < e \<and> e \<le> n \<and> (\<forall>k. i \<le> k \<and> k < e \<longrightarrow> P k)}"
    then show "e \<in> {e. Suc i \<le> e \<and> e \<le> n \<and> (\<forall>k. Suc i \<le> k \<and> k < e \<longrightarrow> P k)}"
      by auto
  qed
  ultimately show ?thesis by simp
next
  case False
  have "f i = []" using False f[of i] by auto
  then have "rep_ends f True (Suc n) (Suc 0) None i = []"
    unfolding rep_ends_plus_step by simp
  moreover have "{e. i < e \<and> e \<le> n \<and> (\<forall>k. i \<le> k \<and> k < e \<longrightarrow> P k)} = {}"
  proof -
    have "\<not> (i < e \<and> e \<le> n \<and> (\<forall>k. i \<le> k \<and> k < e \<longrightarrow> P k))" for e
    proof
      assume a: "i < e \<and> e \<le> n \<and> (\<forall>k. i \<le> k \<and> k < e \<longrightarrow> P k)"
      then have "i < n" "P i" by auto
      then show False using False by simp
    qed
    then show ?thesis by blast
  qed
  ultimately show ?thesis by simp
qed

lemma plus_class_ends:
  assumes "i \<le> length s"
  shows "set (re_ends (Plus (Cls cls)) ic s i)
           = {e. i < e \<and> e \<le> length s \<and> (\<forall>k. i \<le> k \<and> k < e \<longrightarrow> class_ok ic cls (s ! k))}"
proof -
  have "re_ends (Plus (Cls cls)) ic s i
      = rep_ends (re_ends (Cls cls) ic s) True (Suc (length s)) (Suc 0) None i"
    by (simp add: Plus_def)
  then show ?thesis
    using plus_step_ends[of "re_ends (Cls cls) ic s" "length s" "\<lambda>k. class_ok ic cls (s ! k)" i]
      re_ends_Cls assms by simp
qed


lemma letters_class:
  "class_ok False [Range CHR ''a'' CHR ''z'', Range CHR ''A'' CHR ''Z''] x = is_ascii_letter x"
  by (simp add: class_ok_def is_ascii_letter_def Let_def)

lemma closing_tag_regex:
  assumes "i \<le> length s"
  shows "re_ends (seqs [Lits ''</'', Plus (Cls [Range CHR ''a'' CHR ''z'', Range CHR ''A'' CHR ''Z'']),
                        Lit CHR ''>'']) False s i \<noteq> []
     \<longleftrightarrow> lits_at False ''</'' s i
         \<and> (\<exists>e. i + 2 < e \<and> e < length s \<and> (\<forall>k. i + 2 \<le> k \<and> k < e \<longrightarrow> is_ascii_letter (s ! k))
                \<and> s ! e = CHR ''>'')"
proof -
  let ?L = "Cls [Range CHR ''a'' CHR ''z'', Range CHR ''A'' CHR ''Z'']"
  have seqs: "seqs [Lits ''</'', Plus ?L, Lit CHR ''>'']
      = Seq (Lits ''</'') (Seq (Plus ?L) (Seq (Lit CHR ''>'') Eps))"
    by (simp add: seqs_def)
  have gt: "re_ends (Seq (Lit CHR ''>'') Eps) False s e \<noteq> [] \<longleftrightarrow> e < length s \<and> s ! e = CHR ''>''" for e
    by (simp add: Lit_def)
  have plus: "re_ends (Seq (Plus ?L) (Seq (Lit CHR ''>'') Eps)) False s j \<noteq> []
      \<longleftrightarrow> (\<exists>e. j < e \<and> e < length s \<and> (\<forall>k. j \<le> k \<and> k < e \<longrightarrow> is_ascii_letter (s ! k))
                \<and> s ! e = CHR ''>'')" if "j \<le> length s" for j
    unfolding re_ends_Seq_nonempty[of "Plus ?L"] plus_class_ends[OF that] gt letters_class
    by auto
  show ?thesis
  proof (cases "lits_at False ''</'' s i")
    case True
    then have j: "i + 2 \<le> length s" by (simp add: lits_at_def)
    have "re_ends (Lits ''</'') False s i = [i + 2]"
      using True assms by (simp add: re_ends_Lits)
    then show ?thesis
      unfolding seqs re_ends_Seq_nonempty[of "Lits ''</''"] using True plus[OF j] by simp
  next
    case False
    then have "re_ends (Lits ''</'') False s i = []"
      using assms by (simp add: re_ends_Lits)
    then show ?thesis
      unfolding seqs re_ends_Seq_nonempty[of "Lits ''</''"] using False by simp
  qed
qed

lemma closing_tag_at_iff:
  "closing_tag_at s i n \<longleftrightarrow>
     0 < n \<and> lits_at False ''</'' s i \<and> i + 2 + n < length s
     \<and> (\<forall>k. i + 2 \<le> k \<and> k < i + 2 + n \<longrightarrow> is_ascii_letter (s ! k))
     \<and> s ! (i + 2 + n) = CHR ''>''"
proof -
  have open_tag: "slice s i (i + 2) = ''</'' \<longleftrightarrow> lits_at False ''</'' s i"
  proof -
    have "slice s i (i + 2) = take (length ''</'') (drop i s)"
      by (simp add: slice_def numeral_2_eq_2)
    then show ?thesis
      unfolding lits_at_def using take_eq_iff_nth[of "''</''" "drop i s"]
      by (auto simp: less_Suc_eq_0_disj numeral_2_eq_2)
  qed
  have close: "slice s (i + 2 + n) (i + 3 + n) = ''>''
      \<longleftrightarrow> i + 2 + n < length s \<and> s ! (i + 2 + n) = CHR ''>''"
  proof -
    have "slice s (i + 2 + n) (i + 3 + n) = take (length ''>'') (drop (i + 2 + n) s)"
      by (simp add: slice_def)
    then show ?thesis using take_eq_iff_nth[of "''>''" "drop (i + 2 + n) s"] by auto
  qed
  have letters: "list_all is_ascii_letter (slice s (i + 2) (i + 2 + n))
      \<longleftrightarrow> (\<forall>k. i + 2 \<le> k \<and> k < i + 2 + n \<longrightarrow> is_ascii_letter (s ! k))"
    if "i + 2 + n < length s"
  proof -
    have "slice s (i + 2) (i + 2 + n) = take n (drop (i + 2) s)" by (simp add: slice_def)
    moreover have "length (take n (drop (i + 2) s)) = n" using that by simp
    ultimately have "list_all is_ascii_letter (slice s (i + 2) (i + 2 + n))
        \<longleftrightarrow> (\<forall>m<n. is_ascii_letter (s ! (i + 2 + m)))"
      using that by (simp add: list_all_length)
    also have "\<dots> \<longleftrightarrow> (\<forall>k. i + 2 \<le> k \<and> k < i + 2 + n \<longrightarrow> is_ascii_letter (s ! k))"
    proof (intro iffI allI impI)
      fix k assume a: "\<forall>m<n. is_ascii_letter (s ! (i + 2 + m))" and k: "i + 2 \<le> k \<and> k < i + 2 + n"
      then have "k - (i + 2) < n" "i + 2 + (k - (i + 2)) = k" by auto
      then show "is_ascii_letter (s ! k)" using a by metis
    next
      fix m assume "\<forall>k. i + 2 \<le> k \<and> k < i + 2 + n \<longrightarrow> is_ascii_letter (s ! k)" and "m < n"
      then show "is_ascii_letter (s ! (i + 2 + m))" by simp
    qed
    finally show ?thesis .
  qed
  show ?thesis
    unfolding closing_tag_at_def open_tag close using letters by auto
qed

lemma has_closing_tag_iff:
  "has_closing_tag s \<longleftrightarrow> (\<exists>i n. closing_tag_at s i n)"
proof
  assume "has_closing_tag s"
  then show "\<exists>i n. closing_tag_at s i n"
    by (auto simp: has_closing_tag_def list_ex_iff)
next
  assume "\<exists>i n. closing_tag_at s i n"
  then obtain i n where c: "closing_tag_at s i n" by blast
  then have "i < length s" "1 \<le> n" "n < Suc (length s)"
    unfolding closing_tag_at_iff by auto
  then have "i \<in> set [0 ..< length s]" "n \<in> set [1 ..< Suc (length s)]"
    by (simp_all del: upt_Suc)
  then show "has_closing_tag s" using c
    unfolding has_closing_tag_def list_ex_iff by blast
qed

lemma closing_tag_found:
  "(\<exists>i\<le>length s. re_ends (seqs [Lits ''</'',
        Plus (Cls [Range CHR ''a'' CHR ''z'', Range CHR ''A'' CHR ''Z'']), Lit CHR ''>'']) False s i \<noteq> [])
     \<longleftrightarrow> has_closing_tag s"
proof
  assume "\<exists>i\<le>length s. re_ends (seqs [Lits ''</'',
        Plus (Cls [Range CHR ''a'' CHR ''z'', Range CHR ''A'' CHR ''Z'']), Lit CHR ''>'']) False s i \<noteq> []"
  then obtain i e where i: "lits_at False ''</'' s i" "i + 2 < e" "e < length s"
      "\<forall>k. i + 2 \<le> k \<and> k < e \<longrightarrow> is_ascii_letter (s ! k)" "s ! e = CHR ''>''"
    using closing_tag_regex by blast
  obtain n where n: "0 < n" "i + 2 + n = e"
    using less_imp_add_positive[OF i(2)] by blast
  have "closing_tag_at s i n"
    unfolding closing_tag_at_iff using i n by auto
  then show "has_closing_tag s" unfolding has_closing_tag_iff by blast
next
  assume "has_closing_tag s"
  then obtain i n where "closing_tag_at s i n" unfolding has_closing_tag_iff by blast
  then have c: "0 < n" "lits_at False ''</'' s i" "i + 2 + n < length s"
      "\<forall>k. i + 2 \<le> k \<and> k < i + 2 + n \<longrightarrow> is_ascii_letter (s ! k)" "s ! (i + 2 + n) = CHR ''>''"
    unfolding closing_tag_at_iff by auto
  have il: "i \<le> length s" using c(3) by simp
  have "\<exists>e. i + 2 < e \<and> e < length s \<and> (\<forall>k. i + 2 \<le> k \<and> k < e \<longrightarrow> is_ascii_letter (s ! k))
                \<and> s ! e = CHR ''>''"
    using c by (intro exI[of _ "i + 2 + n"]) auto
  then show "\<exists>i\<le>length s. re_ends (seqs [Lits ''</'',
        Plus (Cls [Range CHR ''a'' CHR ''z'', Range CHR ''A'' CHR ''Z'']), Lit CHR ''>'']) False s i \<noteq> []"
    using closing_tag_regex[OF il] c(2) il by blast
qed

lemma classify_examples:
  "classify ''<!doctype HTML><p>x</p>'' = Html"
  "classify ''<report></report>'' = Xml"
  "classify ''<?xml version=1?>'' = Xml"
  "classify ''Item 1 </h1> text'' = Text"
  "classify ''plain text, 8.5%'' = Text"
  by code_simp+

lemma xml_pattern_found:
  "re_search xml_pattern False s \<noteq> None \<longleftrightarrow> contains ''<?xml'' s \<or> has_closing_tag s"
  unfolding re_search_found xml_pattern_def search_Alt search_Lits closing_tag_found
    contains_lits_at ..

text \<open>
  C8. \<open>detect_content_type\<close> decides in the order of the specification: the two
  searches of the source find a match exactly when the content contains what the
  specification names.
\<close>

theorem detect_content_type_decision_order:
  "detect_content_type content = classify content"
  unfolding detect_content_type_def classify_def html_pattern_found xml_pattern_found ..



theorem detect_content_type_decision_order_witness:
  "detect_content_type ''<!doctype HTML><p>x</p>'' = Html
   \<and> detect_content_type ''<report></report>'' = Xml
   \<and> detect_content_type ''<?xml version=1?>'' = Xml
   \<and> detect_content_type ''Item 1 </h1> text'' = Text
   \<and> detect_content_type ''plain text, 8.5%'' = Text"
  by (simp only: detect_content_type_decision_order classify_examples)

end
